theory Spec2Isabelle
  imports Complex_Main "HOL-Library.Sublist"
begin

section \<open>Python string operations used by the sources\<close>

text \<open>
  A Python \<open>str\<close> is modelled as a \<open>string\<close>: one \<open>char\<close> per code point, for
  code points below 256. \<open>isspace\<close> lists the code points below 256 for which
  \<open>str.isspace\<close> holds; \<open>str.strip()\<close> removes them at both ends.
\<close>

definition isspace :: "char \<Rightarrow> bool" where
  "isspace ch = (ch \<in> set [CHR 0x09, CHR 0x0A, CHR 0x0B, CHR 0x0C, CHR 0x0D,
     CHR 0x1C, CHR 0x1D, CHR 0x1E, CHR 0x1F, CHR 0x20, CHR 0x85, CHR 0xA0])"

definition strip :: "string \<Rightarrow> string" where
  "strip s = rev (dropWhile isspace (rev (dropWhile isspace s)))"

text \<open>
  \<open>s.split(sep)\<close> for a non-empty separator: the pieces between the leftmost,
  non-overlapping occurrences of \<open>sep\<close>; the result is never empty.
\<close>

fun split :: "string \<Rightarrow> string \<Rightarrow> string list" where
  "split sep [] = [[]]"
| "split sep (x # xs) =
     (if prefix sep (x # xs) then [] # split sep (drop (length sep - 1) xs)
      else (let ps = split sep xs in (x # hd ps) # tl ps))"

text \<open>\<open>s.replace(old, new)\<close> for a non-empty \<open>old\<close>: leftmost, non-overlapping.\<close>

fun replace :: "string \<Rightarrow> string \<Rightarrow> string \<Rightarrow> string" where
  "replace old new [] = []"
| "replace old new (x # xs) =
     (if prefix old (x # xs) then new @ replace old new (drop (length old - 1) xs)
      else x # replace old new xs)"

text \<open>\<open>s[i:]\<close> with Python's reading of a negative or out-of-range start.\<close>

definition slice_from :: "int \<Rightarrow> string \<Rightarrow> string" where
  "slice_from i s =
     (let n = int (length s);
          start = (if i < 0 then max 0 (n + i) else min i n)
      in drop (nat start) s)"

text \<open>\<open>pat in s\<close> on strings: \<open>pat\<close> occurs in \<open>s\<close> as a contiguous run.\<close>

fun contains :: "string \<Rightarrow> string \<Rightarrow> bool" where
  "contains pat [] = (pat = [])"
| "contains pat (x # xs) = (prefix pat (x # xs) \<or> contains pat xs)"

text \<open>\<open>sep.join(xs)\<close>.\<close>

fun join :: "string \<Rightarrow> string list \<Rightarrow> string" where
  "join sep [] = []"
| "join sep [x] = x"
| "join sep (x # y # ys) = x @ sep @ join sep (y # ys)"

section \<open>Chunker (app/ingestion/chunker.py)\<close>

type_synonym 'v metadata = "(string \<times> 'v) list"

record 'v Chunk =
  content :: string
  metadata :: "'v metadata"

record TextChunker =
  chunk_size :: int
  chunk_overlap :: int

definition default_chunker :: TextChunker where
  "default_chunker = \<lparr>chunk_size = 1000, chunk_overlap = 200\<rparr>"

text \<open>
  \<open>if current_chunk.strip(): yield Chunk(content=current_chunk.strip(), ...)\<close>, which
  both loops of the chunker use to emit their buffer.
\<close>

definition flush :: "'v metadata \<Rightarrow> string \<Rightarrow> 'v Chunk list" where
  "flush md cur = (if strip cur \<noteq> [] then [\<lparr>content = strip cur, metadata = md\<rparr>] else [])"

text \<open>
  The loop of \<open>_split_large_text\<close> over the sentences, with the buffer
  \<open>current_chunk\<close> as an argument; the chunks it yields, in order.
\<close>

fun split_large_loop :: "TextChunker \<Rightarrow> 'v metadata \<Rightarrow> string \<Rightarrow> string list \<Rightarrow> 'v Chunk list" where
  "split_large_loop c md cur [] = flush md cur"
| "split_large_loop c md cur (s0 # ss) =
     (let sentence = strip s0 in
      if sentence = [] then split_large_loop c md cur ss
      else if int (length cur) + int (length sentence) > chunk_size c
        then flush md cur @ split_large_loop c md sentence ss
        else split_large_loop c md (if cur \<noteq> [] then cur @ '' '' @ sentence else sentence) ss)"

definition sentences :: "string \<Rightarrow> string list" where
  "sentences text = split [CHR 0x0A] (replace ''. '' [CHR ''.'', CHR 0x0A] text)"

definition split_large_text :: "TextChunker \<Rightarrow> string \<Rightarrow> 'v metadata \<Rightarrow> 'v Chunk list" where
  "split_large_text c text md = split_large_loop c md [] (sentences text)"

text \<open>
  \<open>current_chunk[-self.chunk_overlap:] if len(current_chunk) > self.chunk_overlap else ""\<close>
\<close>

definition overlap_of :: "TextChunker \<Rightarrow> string \<Rightarrow> string" where
  "overlap_of c cur =
     (if int (length cur) > chunk_overlap c then slice_from (- chunk_overlap c) cur else [])"

text \<open>
  One round of the paragraph loop of \<open>chunk_text\<close> for a non-blank, stripped
  paragraph: the chunks it yields and the new buffer.
\<close>

definition chunk_step :: "TextChunker \<Rightarrow> 'v metadata \<Rightarrow> string \<Rightarrow> string \<Rightarrow> 'v Chunk list \<times> string" where
  "chunk_step c md cur paragraph =
     (if int (length cur) + int (length paragraph) > chunk_size c then
        (if int (length paragraph) > chunk_size c
         then (flush md cur @ split_large_text c paragraph md, [])
         else (let overlap = overlap_of c cur
               in (flush md cur,
                   if overlap \<noteq> [] then overlap @ [CHR 0x0A, CHR 0x0A] @ paragraph
                   else paragraph)))
      else ([], if cur \<noteq> [] then cur @ [CHR 0x0A, CHR 0x0A] @ paragraph else paragraph))"

fun chunk_loop :: "TextChunker \<Rightarrow> 'v metadata \<Rightarrow> string \<Rightarrow> string list \<Rightarrow> 'v Chunk list" where
  "chunk_loop c md cur [] = flush md cur"
| "chunk_loop c md cur (p0 # ps) =
     (let paragraph = strip p0 in
      if paragraph = [] then chunk_loop c md cur ps
      else (case chunk_step c md cur paragraph of
              (out, cur') \<Rightarrow> out @ chunk_loop c md cur' ps))"

definition chunk_text :: "TextChunker \<Rightarrow> string \<Rightarrow> 'v metadata \<Rightarrow> 'v Chunk list" where
  "chunk_text c text md =
     (let t = strip text in
      if t = [] then [] else chunk_loop c md [] (split [CHR 0x0A, CHR 0x0A] t))"

text \<open>
  Vocabulary for the size properties: a sentence, as \<open>_split_large_text\<close> cuts
  them, holds neither the terminator \<open>". "\<close> nor a line break; \<open>size_ok\<close> is the
  bound every emitted chunk meets.
\<close>

definition one_sentence :: "string \<Rightarrow> bool" where
  "one_sentence s = (\<not> contains ''. '' s \<and> CHR 0x0A \<notin> set s)"

definition size_ok :: "TextChunker \<Rightarrow> string \<Rightarrow> bool" where
  "size_ok c s = (int (length s) \<le> chunk_size c + chunk_overlap c + 2
     \<or> (chunk_size c < int (length s) \<and> one_sentence s))"


text \<open>
  The buffer update of \<open>chunk_text\<close> when nothing is flushed
  (the buffer, a blank line, then the paragraph; the paragraph alone for an empty buffer), and the
  non-blank, stripped paragraphs of a text, which the loop iterates over.
\<close>

definition add_paragraph :: "string \<Rightarrow> string \<Rightarrow> string" where
  "add_paragraph cur p = (if cur \<noteq> [] then cur @ [CHR 0x0A, CHR 0x0A] @ p else p)"

definition paragraphs :: "string \<Rightarrow> string list" where
  "paragraphs t = filter (\<lambda>p. p \<noteq> []) (map strip (split [CHR 0x0A, CHR 0x0A] t))"

section \<open>Crawler (app/ingestion/crawler.py)\<close>

subsection \<open>URL parsing\<close>

text \<open>
  \<open>urllib.parse.urlparse\<close> of the Python standard library, as far as the crawler
  reads its result (the scheme decides whether parameters are cut from the path; the
  crawler reads \<open>netloc\<close> and \<open>path\<close>). Leading control characters and spaces are
  dropped and tabs and line breaks removed; a scheme is a letter followed by scheme
  characters up to the first colon; after \<open>//\<close> the netloc runs to the first of
  \<open>/\<close>, \<open>?\<close>, \<open>#\<close>; a netloc with one square bracket but not the other raises
  \<open>ValueError\<close> (the result \<open>None\<close>); the fragment, the query and, for the schemes
  that use them, the parameters of the last path segment are cut off the path. The
  further checks of a bracketed host and of non-ASCII netloc characters are not
  modelled.
\<close>

record ParseResult =
  scheme :: string
  netloc :: string
  path :: string

definition ascii_alpha :: "char \<Rightarrow> bool" where
  "ascii_alpha ch =
     (let n = (of_char ch :: nat) in (97 \<le> n \<and> n \<le> 122) \<or> (65 \<le> n \<and> n \<le> 90))"

definition ascii_digit :: "char \<Rightarrow> bool" where
  "ascii_digit ch = (let n = (of_char ch :: nat) in 48 \<le> n \<and> n \<le> 57)"

definition scheme_char :: "char \<Rightarrow> bool" where
  "scheme_char ch = (ascii_alpha ch \<or> ascii_digit ch \<or> ch \<in> set ''+-.'')"

text \<open>\<open>str.lower\<close> on code points below 256.\<close>

definition lower_char :: "char \<Rightarrow> char" where
  "lower_char ch =
     (let n = (of_char ch :: nat) in
      if (65 \<le> n \<and> n \<le> 90) \<or> (192 \<le> n \<and> n \<le> 222 \<and> n \<noteq> 215) then char_of (n + 32) else ch)"

definition lower :: "string \<Rightarrow> string" where
  "lower s = map lower_char s"

text \<open>\<open>s.rstrip("/")\<close>.\<close>

definition rstrip_slash :: "string \<Rightarrow> string" where
  "rstrip_slash s = rev (dropWhile (\<lambda>ch. ch = CHR ''/'') (rev s))"

definition uses_params :: "string list" where
  "uses_params = ['''', ''ftp'', ''hdl'', ''prospero'', ''http'', ''imap'', ''https'', ''shttp'',
     ''rtsp'', ''rtsps'', ''rtspu'', ''sip'', ''sips'', ''mms'', ''sftp'', ''tel'']"

definition split_scheme :: "string \<Rightarrow> string \<times> string" where
  "split_scheme url =
     (let pre = takeWhile (\<lambda>ch. ch \<noteq> CHR '':'') url in
      if pre \<noteq> [] \<and> length pre < length url \<and> ascii_alpha (hd url) \<and> list_all scheme_char pre
      then (lower pre, drop (length pre + 1) url)
      else ([], url))"

definition split_params :: "string \<Rightarrow> string" where
  "split_params url =
     (if CHR ''/'' \<in> set url then
        (let last_segment = rev (takeWhile (\<lambda>ch. ch \<noteq> CHR ''/'') (rev url)) in
         if CHR '';'' \<in> set last_segment
         then take (length url - length last_segment) url @ takeWhile (\<lambda>ch. ch \<noteq> CHR '';'') last_segment
         else url)
      else takeWhile (\<lambda>ch. ch \<noteq> CHR '';'') url)"

definition urlparse :: "string \<Rightarrow> ParseResult option" where
  "urlparse url0 =
     (let url1 = filter (\<lambda>ch. ch \<notin> set [CHR 0x09, CHR 0x0D, CHR 0x0A])
                   (dropWhile (\<lambda>ch. (of_char ch :: nat) \<le> 32) url0);
          (sch, url2) = split_scheme url1;
          has_netloc = (take 2 url2 = ''//'');
          loc = (if has_netloc then takeWhile (\<lambda>ch. ch \<notin> set ''/?#'') (drop 2 url2) else []);
          url3 = (if has_netloc then dropWhile (\<lambda>ch. ch \<notin> set ''/?#'') (drop 2 url2) else url2)
      in if (CHR ''['' \<in> set loc) \<noteq> (CHR '']'' \<in> set loc) then None
         else
           (let url4 = takeWhile (\<lambda>ch. ch \<noteq> CHR ''#'') url3;
                url5 = takeWhile (\<lambda>ch. ch \<noteq> CHR ''?'') url4;
                url6 = (if sch \<in> set uses_params \<and> CHR '';'' \<in> set url5 then split_params url5 else url5)
            in Some \<lparr>scheme = sch, netloc = loc, path = url6\<rparr>))"

text \<open>
  The \<open>hostname\<close> of a parse result, computed from its netloc as the standard
  library does: the user info up to the last \<open>@\<close> and the port from the first
  \<open>:\<close> are dropped (for a bracketed host, what stands between the brackets is
  kept), and the host is put in lower case up to a zone separator \<open>%\<close>. The
  crawler never reads it; it is what "the host of a URL" means when a claim speaks of
  hosts.
\<close>

definition hostname :: "string \<Rightarrow> string" where
  "hostname loc =
     (let hostinfo = rev (takeWhile (\<lambda>ch. ch \<noteq> CHR ''@'') (rev loc));
          host = (if CHR ''['' \<in> set hostinfo
                  then takeWhile (\<lambda>ch. ch \<noteq> CHR '']'')
                         (drop 1 (dropWhile (\<lambda>ch. ch \<noteq> CHR ''['') hostinfo))
                  else takeWhile (\<lambda>ch. ch \<noteq> CHR '':'') hostinfo)
      in lower (takeWhile (\<lambda>ch. ch \<noteq> CHR ''%'') host) @ dropWhile (\<lambda>ch. ch \<noteq> CHR ''%'') host)"

subsection \<open>The crawler\<close>

record DocsCrawler =
  base_url :: string
  max_pages :: int
  max_depth :: int
  base_domain :: string
  base_path_prefix :: string

text \<open>
  \<open>DocsCrawler.__init__\<close> (defaults \<open>max_pages = 500\<close>, \<open>max_depth = 5\<close>); \<open>None\<close>
  when parsing the base URL raises. The visited set starts empty and is threaded
  through the crawl below.
\<close>

definition path_or_root :: "string \<Rightarrow> string" where
  "path_or_root p = (if rstrip_slash p \<noteq> [] then rstrip_slash p else ''/'')"

definition new_crawler :: "string \<Rightarrow> int \<Rightarrow> int \<Rightarrow> DocsCrawler option" where
  "new_crawler url pages depth =
     (case urlparse (rstrip_slash url) of
        None \<Rightarrow> None
      | Some parsed \<Rightarrow>
          Some \<lparr>base_url = rstrip_slash url, max_pages = pages, max_depth = depth,
                base_domain = netloc parsed, base_path_prefix = path_or_root (path parsed)\<rparr>)"

definition skip_extensions :: "string list" where
  "skip_extensions = [''.pdf'', ''.zip'', ''.tar'', ''.gz'', ''.png'', ''.jpg'', ''.gif'', ''.svg'',
     ''.css'', ''.js'']"

text \<open>\<open>_is_valid_url\<close>; an exception of the parse is answered by \<open>False\<close>.\<close>

definition is_valid_url :: "DocsCrawler \<Rightarrow> string \<Rightarrow> bool" where
  "is_valid_url c url =
     (case urlparse url of
        None \<Rightarrow> False
      | Some parsed \<Rightarrow>
          if netloc parsed \<noteq> base_domain c then False
          else
            (let url_path = path_or_root (path parsed) in
             if \<not> prefix (base_path_prefix c) url_path then False
             else if list_ex (\<lambda>ext. suffix ext (lower url_path)) skip_extensions then False
             else True))"

text \<open>\<open>url.split("#")[0].rstrip("/")\<close>: the identity of a URL in the visited set.\<close>

definition normalize_url :: "string \<Rightarrow> string" where
  "normalize_url url = rstrip_slash (hd (split ''#'' url))"

text \<open>
  What fetching a URL gives: an exception (network error, status that is not 2xx, a
  failure while parsing), a response that is not HTML, or an HTML page with its
  extracted title and content and, for each anchor the link extraction keeps, the
  absolute URL \<open>urljoin(current_url, href)\<close>. The HTTP client, the HTML parser and
  \<open>urljoin\<close> are external; a site is a function from URLs to such responses.
\<close>

datatype response = RequestFailed | NotHtml | Page string string "string list"

record CrawledPage =
  page_url :: string
  page_title :: string
  page_content :: string

text \<open>
  The traversal state: the visited set, kept as the list of the URLs in the order of
  \<open>self.visited.add(url)\<close> (membership is membership in the list), and the pages
  yielded so far.
\<close>

record crawl_state =
  visited :: "string list"
  yielded :: "CrawledPage list"

text \<open>\<open>_extract_links\<close>, from the absolute URLs of the anchors.\<close>

definition extract_links :: "DocsCrawler \<Rightarrow> string list \<Rightarrow> string list \<Rightarrow> string list" where
  "extract_links c absolute_urls seen =
     filter (\<lambda>u. is_valid_url c u \<and> u \<notin> set seen) (map normalize_url absolute_urls)"

text \<open>
  \<open>self.visited.add(url)\<close>, and the \<open>yield\<close> of a page whose content is not
  blank.
\<close>

definition mark_visited :: "crawl_state \<Rightarrow> string \<Rightarrow> crawl_state" where
  "mark_visited st url = st\<lparr>visited := visited st @ [url]\<rparr>"

definition yield_page :: "crawl_state \<Rightarrow> string \<Rightarrow> string \<Rightarrow> string \<Rightarrow> crawl_state" where
  "yield_page st url title body =
     (if strip body \<noteq> []
      then st\<lparr>yielded := yielded st @ [\<lparr>page_url = url, page_title = title, page_content = body\<rparr>]\<rparr>
      else st)"

text \<open>
  \<open>_crawl_recursive\<close>, and the loop over the links of a page (at the depth of the
  links). The recursion ends because the depth grows with every level and a call
  beyond \<open>max_depth\<close> returns at once.
\<close>

function crawl_recursive :: "DocsCrawler \<Rightarrow> (string \<Rightarrow> response) \<Rightarrow> string \<Rightarrow> int \<Rightarrow> crawl_state \<Rightarrow> crawl_state"
  and crawl_links :: "DocsCrawler \<Rightarrow> (string \<Rightarrow> response) \<Rightarrow> string list \<Rightarrow> int \<Rightarrow> crawl_state \<Rightarrow> crawl_state"
  where
  "crawl_recursive c site url depth st =
     (if depth > max_depth c then st
      else if int (length (visited st)) \<ge> max_pages c then st
      else if normalize_url url \<in> set (visited st) then st
      else if \<not> is_valid_url c (normalize_url url) then st
      else
        (case site (normalize_url url) of
           RequestFailed \<Rightarrow> mark_visited st (normalize_url url)
         | NotHtml \<Rightarrow> mark_visited st (normalize_url url)
         | Page title body absolute_urls \<Rightarrow>
             crawl_links c site
               (extract_links c absolute_urls (visited (mark_visited st (normalize_url url))))
               (depth + 1)
               (yield_page (mark_visited st (normalize_url url)) (normalize_url url) title body)))"
| "crawl_links c site [] depth st = st"
| "crawl_links c site (link # links) depth st =
     crawl_links c site links depth (crawl_recursive c site link depth st)"
  by pat_completeness auto
termination
  by (relation "(\<lambda>x. case x of
          Inl (c, site, url, depth, st) \<Rightarrow> 2 * nat (max_depth c + 1 - depth) + 1
        | Inr (c, site, links, depth, st) \<Rightarrow> 2 * nat (max_depth c + 1 - depth) + 2)
      <*mlex*> measure (\<lambda>x. case x of
          Inl (c, site, url, depth, st) \<Rightarrow> 0
        | Inr (c, site, links, depth, st) \<Rightarrow> length links)")
    (auto simp: wf_mlex mlex_less mlex_leq)

text \<open>\<open>crawl\<close>: from the base URL at depth 0, with nothing visited.\<close>

definition crawl :: "DocsCrawler \<Rightarrow> (string \<Rightarrow> response) \<Rightarrow> crawl_state" where
  "crawl c site = crawl_recursive c site (base_url c) 0 \<lparr>visited = [], yielded = []\<rparr>"

text \<open>
  The valid normalized links of a fetched URL, and the in-scope pages a site offers to
  a crawler: the base URL, if it is valid, and every valid normalized link of an HTML
  page that is itself reachable.
\<close>

definition links_of :: "DocsCrawler \<Rightarrow> (string \<Rightarrow> response) \<Rightarrow> string \<Rightarrow> string list" where
  "links_of c site u =
     (case site u of
        Page title body absolute_urls \<Rightarrow> filter (is_valid_url c) (map normalize_url absolute_urls)
      | _ \<Rightarrow> [])"

inductive_set reachable :: "DocsCrawler \<Rightarrow> (string \<Rightarrow> response) \<Rightarrow> string set"
  for c :: DocsCrawler and site :: "string \<Rightarrow> response"
  where
  base: "is_valid_url c (normalize_url (base_url c)) \<Longrightarrow> normalize_url (base_url c) \<in> reachable c site"
| link: "u \<in> reachable c site \<Longrightarrow> v \<in> set (links_of c site u) \<Longrightarrow> v \<in> reachable c site"

text \<open>
  An example: a crawler of \<open>https://ex.com/docs\<close> with a budget of three pages, and
  a site of ten pages, where the base page links to nine pages that each link back.
\<close>

definition example_crawler :: DocsCrawler where
  "example_crawler = \<lparr>base_url = ''https://ex.com/docs'', max_pages = 3, max_depth = 5,
     base_domain = ''ex.com'', base_path_prefix = ''/docs''\<rparr>"

definition example_pages :: "string list" where
  "example_pages = [''https://ex.com/docs/1'', ''https://ex.com/docs/2'', ''https://ex.com/docs/3'',
     ''https://ex.com/docs/4'', ''https://ex.com/docs/5'', ''https://ex.com/docs/6'',
     ''https://ex.com/docs/7'', ''https://ex.com/docs/8'', ''https://ex.com/docs/9'']"

definition example_site :: "string \<Rightarrow> response" where
  "example_site u =
     (if u = ''https://ex.com/docs'' then Page ''Docs'' ''Welcome'' example_pages
      else if u \<in> set example_pages then Page ''Page'' ''Some text'' [''https://ex.com/docs#top'']
      else RequestFailed)"

section \<open>Repository fetcher (app/ingestion/github.py)\<close>

text \<open>
  The code-hosting API is external. A \<open>ContentFile\<close> is what it reports for one entry
  of the tree: its type (\<open>file\<close>, \<open>dir\<close>, or another kind), its path, its size in
  bytes, its address, and its text (\<open>None\<close> when decoding the content raises).
  \<open>get_contents\<close> answers a path with one entry, with a directory listing, or raises
  \<open>GithubException\<close>; a repository is the function from paths to these answers.
\<close>

record ContentFile =
  cf_type :: string
  cf_path :: string
  cf_size :: int
  cf_html_url :: string
  cf_decoded :: "string option"

datatype contents = GithubException | Single ContentFile | Listing "ContentFile list"

record GitHubFile =
  gf_path :: string
  gf_content :: string
  gf_url :: string
  gf_file_type :: string

record GitHubFetcher =
  owner :: string
  repo_name :: string
  max_files :: int

definition PRIORITY_FILES :: "string list" where
  "PRIORITY_FILES = [''README.md'', ''readme.md'', ''README.rst'', ''CONTRIBUTING.md'',
     ''CHANGELOG.md'', ''ARCHITECTURE.md'', ''docs/README.md'', ''doc/README.md'']"

definition DOC_DIRS :: "string list" where
  "DOC_DIRS = [''docs'', ''doc'', ''documentation'', ''examples'', ''samples'']"

definition OPERATOR_DIRS :: "string list" where
  "OPERATOR_DIRS = [''api'', ''apis'', ''config/crd'', ''config/rbac'', ''config/samples'',
     ''bundle/manifests'', ''charts'', ''deploy'', ''hack'']"

definition relevant_extensions :: "string list" where
  "relevant_extensions = [''.md'', ''.rst'', ''.txt'', ''.adoc'', ''.go'', ''.py'', ''.yaml'',
     ''.yml'', ''.json'', ''.sh'', ''.bash'']"

text \<open>
  \<open>GitHubFetcher.__init__\<close> (default \<open>max_files = 100\<close>): owner and repository name
  are the first two parts of the URL's path; \<open>None\<close> for the \<open>ValueError\<close> of a URL
  with fewer parts (or of the parse).
\<close>

definition strip_slashes :: "string \<Rightarrow> string" where
  "strip_slashes s = rstrip_slash (dropWhile (\<lambda>ch. ch = CHR ''/'') s)"

definition new_fetcher :: "string \<Rightarrow> int \<Rightarrow> GitHubFetcher option" where
  "new_fetcher repo_url files =
     (case urlparse repo_url of
        None \<Rightarrow> None
      | Some parsed \<Rightarrow>
          (case split ''/'' (strip_slashes (path parsed)) of
             own # nm # rest \<Rightarrow> Some \<lparr>owner = own, repo_name = replace ''.git'' [] nm, max_files = files\<rparr>
           | _ \<Rightarrow> None))"

text \<open>
  The state of a fetch: \<open>self.fetched_count\<close> and the files yielded so far.
\<close>

record fetch_state =
  fetched_count :: int
  fetched :: "GitHubFile list"

definition file_extension :: "string \<Rightarrow> string" where
  "file_extension p = (if CHR ''.'' \<in> set p then ''.'' @ last (split ''.'' p) else [])"

text \<open>\<open>_process_file\<close>: the size ceiling, the extension filter, then the decoding.\<close>

definition process_file :: "ContentFile \<Rightarrow> string \<Rightarrow> fetch_state \<Rightarrow> fetch_state" where
  "process_file file_content ftype st =
     (if cf_size file_content > 500000 then st
      else if lower (file_extension (cf_path file_content)) \<notin> set relevant_extensions
              \<and> cf_path file_content \<notin> set PRIORITY_FILES then st
      else
        (case cf_decoded file_content of
           None \<Rightarrow> st
         | Some decoded \<Rightarrow>
             \<lparr>fetched_count = fetched_count st + 1,
              fetched = fetched st @
                [\<lparr>gf_path = cf_path file_content, gf_content = decoded,
                  gf_url = cf_html_url file_content, gf_file_type = ftype\<rparr>]\<rparr>))"

text \<open>
  \<open>_fetch_directory\<close> and its loop over the entries of a listing. A call deeper than
  4 returns at once, which ends the recursion.
\<close>

function fetch_directory :: "GitHubFetcher \<Rightarrow> (string \<Rightarrow> contents) \<Rightarrow> string \<Rightarrow> string \<Rightarrow> int \<Rightarrow> fetch_state \<Rightarrow> fetch_state"
  and fetch_items :: "GitHubFetcher \<Rightarrow> (string \<Rightarrow> contents) \<Rightarrow> ContentFile list \<Rightarrow> string \<Rightarrow> int \<Rightarrow> fetch_state \<Rightarrow> fetch_state"
  where
  "fetch_directory g repo dir ftype depth st =
     (if depth > 4 \<or> fetched_count st \<ge> max_files g then st
      else
        (case repo dir of
           GithubException \<Rightarrow> st
         | Single item \<Rightarrow> fetch_items g repo [item] ftype depth st
         | Listing items \<Rightarrow> fetch_items g repo items ftype depth st))"
| "fetch_items g repo [] ftype depth st = st"
| "fetch_items g repo (item # items) ftype depth st =
     (if fetched_count st \<ge> max_files g then st
      else fetch_items g repo items ftype depth
        (if cf_type item = ''dir'' then fetch_directory g repo (cf_path item) ftype (depth + 1) st
         else if cf_type item = ''file'' then process_file item ftype st
         else st))"
  by pat_completeness auto
termination
  by (relation "(\<lambda>x. case x of
          Inl (g, repo, dir, ftype, depth, st) \<Rightarrow> nat (2 * (5 - depth) + 2)
        | Inr (g, repo, items, ftype, depth, st) \<Rightarrow> nat (2 * (5 - depth)) + 1)
      <*mlex*> measure (\<lambda>x. case x of
          Inl (g, repo, dir, ftype, depth, st) \<Rightarrow> 0
        | Inr (g, repo, items, ftype, depth, st) \<Rightarrow> length items)")
    (auto simp: wf_mlex mlex_less mlex_leq)

text \<open>\<open>_get_file_type\<close>: the first directory-name fragment that occurs in the path.\<close>

definition get_file_type :: "string \<Rightarrow> string" where
  "get_file_type dir_path =
     (if contains ''api'' dir_path then ''api_types''
      else if contains ''crd'' dir_path then ''crd''
      else if contains ''rbac'' dir_path then ''rbac''
      else if contains ''sample'' dir_path then ''sample''
      else if contains ''chart'' dir_path \<or> contains ''helm'' dir_path then ''helm_chart''
      else if contains ''bundle'' dir_path then ''olm_bundle''
      else ''code'')"

text \<open>
  The three loops of \<open>fetch\<close>: the priority files, fetched by path (a listing or a
  \<open>GithubException\<close> is passed over), then the directories of the operator, then the
  documentation directories. Each loop breaks once the budget is used.
\<close>

fun fetch_priority :: "GitHubFetcher \<Rightarrow> (string \<Rightarrow> contents) \<Rightarrow> string list \<Rightarrow> fetch_state \<Rightarrow> fetch_state" where
  "fetch_priority g repo [] st = st"
| "fetch_priority g repo (file_path # rest) st =
     (if fetched_count st \<ge> max_files g then st
      else fetch_priority g repo rest
        (case repo file_path of
           Single item \<Rightarrow> process_file item ''readme'' st
         | _ \<Rightarrow> st))"

fun fetch_dirs :: "GitHubFetcher \<Rightarrow> (string \<Rightarrow> contents) \<Rightarrow> (string \<Rightarrow> string) \<Rightarrow> string list \<Rightarrow> fetch_state \<Rightarrow> fetch_state" where
  "fetch_dirs g repo ftype_of [] st = st"
| "fetch_dirs g repo ftype_of (dir_path # rest) st =
     (if fetched_count st \<ge> max_files g then st
      else fetch_dirs g repo ftype_of rest (fetch_directory g repo dir_path (ftype_of dir_path) 0 st))"

text \<open>
  \<open>fetch\<close>, for a fetcher that has fetched nothing yet: the files it yields, in order.
  \<open>None\<close> for the repository stands for a \<open>GithubException\<close> of \<open>get_repo\<close>.
\<close>

definition fetch :: "GitHubFetcher \<Rightarrow> (string \<Rightarrow> contents) option \<Rightarrow> GitHubFile list" where
  "fetch g repository =
     (case repository of
        None \<Rightarrow> []
      | Some repo \<Rightarrow>
          (let st1 = fetch_priority g repo PRIORITY_FILES \<lparr>fetched_count = 0, fetched = []\<rparr>;
               st2 = fetch_dirs g repo get_file_type OPERATOR_DIRS st1;
               st3 = fetch_dirs g repo (\<lambda>d. ''docs'') DOC_DIRS st2
           in fetched st3))"

text \<open>Every entry the API can report for a repository.\<close>

definition repo_files :: "(string \<Rightarrow> contents) \<Rightarrow> ContentFile set" where
  "repo_files repo =
     {f. \<exists>p. repo p = Single f \<or> (\<exists>items. repo p = Listing items \<and> f \<in> set items)}"

text \<open>
  An example: a repository with a README, an oversized changelog and an \<open>api\<close>
  directory of three files, one of them in a subdirectory, fetched with a budget of
  three files.
\<close>

definition example_file :: "string \<Rightarrow> int \<Rightarrow> ContentFile" where
  "example_file p n = \<lparr>cf_type = ''file'', cf_path = p, cf_size = n,
     cf_html_url = ''https://github.com/acme/op/blob/main/'' @ p, cf_decoded = Some (''text of '' @ p)\<rparr>"

definition example_repo :: "string \<Rightarrow> contents" where
  "example_repo p =
     (if p = ''README.md'' then Single (example_file ''README.md'' 1200)
      else if p = ''CHANGELOG.md'' then Single (example_file ''CHANGELOG.md'' 600000)
      else if p = ''api'' then Listing [example_file ''api/types.go'' 4000,
          \<lparr>cf_type = ''dir'', cf_path = ''api/v1'', cf_size = 0, cf_html_url = [], cf_decoded = None\<rparr>,
          example_file ''api/doc.go'' 300]
      else if p = ''api/v1'' then Listing [example_file ''api/v1/spec.yaml'' 900,
          example_file ''api/v1/logo.png'' 100]
      else GithubException)"

text \<open>
  What holds of the state throughout a fetch: the counter is the number of files
  yielded, it is within the budget, and every file yielded comes from an entry of the
  repository that is not larger than the size ceiling.
\<close>

definition fetch_inv :: "GitHubFetcher \<Rightarrow> (string \<Rightarrow> contents) \<Rightarrow> fetch_state \<Rightarrow> bool" where
  "fetch_inv g repo st =
     (fetched_count st = int (length (fetched st))
      \<and> fetched_count st \<le> max 0 (max_files g)
      \<and> (\<forall>gf \<in> set (fetched st). \<exists>f \<in> repo_files repo.
            cf_size f \<le> 500000 \<and> gf_path gf = cf_path f \<and> cf_decoded f = Some (gf_content gf)))"

section \<open>Indexing orchestrator (app/models/source.py, app/ingestion/tasks.py)\<close>

datatype SourceType = DOCUMENTATION | GITHUB_OPERATOR | GITHUB_OPERAND | GITHUB_ISSUES | SLACK_HISTORY

datatype SourceStatus = PENDING | INDEXING | INDEXED | FAILED

text \<open>\<open>SourceType.value\<close>.\<close>

fun source_type_value :: "SourceType \<Rightarrow> string" where
  "source_type_value DOCUMENTATION = ''documentation''"
| "source_type_value GITHUB_OPERATOR = ''github_operator''"
| "source_type_value GITHUB_OPERAND = ''github_operand''"
| "source_type_value GITHUB_ISSUES = ''github_issues''"
| "source_type_value SLACK_HISTORY = ''slack_history''"

record KnowledgeSource =
  ks_id :: string
  channel_id :: string
  source_type :: SourceType
  source_url :: string
  status :: SourceStatus
  last_indexed_at :: "nat option"
  error_message :: "string option"

record MonitoredChannel =
  mc_id :: string
  slack_channel_id :: string

text \<open>
  The persistence layer, with the transactional semantics the code relies on: the rows
  as they are stored, and the rows as the session sees them, which carry the attribute
  changes that are not committed yet. A commit stores the session's rows; a rollback
  discards the changes of the session.
\<close>

record database =
  channels :: "MonitoredChannel list"
  committed :: "KnowledgeSource list"
  session :: "KnowledgeSource list"

text \<open>
  What is external to a run, with \<open>Some e\<close> or \<open>Inl e\<close> for an exception whose text is
  \<open>e\<close>: whether the commit made while a source (by id) is being moved to a status
  raises, whether refreshing a source raises, what the four \<open>_index_...\<close> helpers
  return for a URL (they drive the crawler, the repository fetchers, the history
  fetcher and the chunker), the embedder, the vector store, and the clock.
\<close>

record indexing_world =
  commit_error :: "string \<Rightarrow> SourceStatus \<Rightarrow> string option"
  refresh_error :: "string \<Rightarrow> string option"
  index_documentation :: "string \<Rightarrow> string + string Chunk list"
  index_github :: "string \<Rightarrow> string \<Rightarrow> string + string Chunk list"
  index_github_issues :: "string \<Rightarrow> string + string Chunk list"
  index_slack_history :: "string \<Rightarrow> string + string Chunk list"
  embed :: "string list \<Rightarrow> string + real list list"
  vector_add :: "string list \<Rightarrow> real list list \<Rightarrow> string metadata list \<Rightarrow> string option"
  utcnow :: nat

text \<open>An attribute change of the source with the given id, in the session.\<close>

definition update_rows :: "string \<Rightarrow> (KnowledgeSource \<Rightarrow> KnowledgeSource) \<Rightarrow> KnowledgeSource list \<Rightarrow> KnowledgeSource list" where
  "update_rows sid f rows = map (\<lambda>r. if ks_id r = sid then f r else r) rows"

definition update_source :: "string \<Rightarrow> (KnowledgeSource \<Rightarrow> KnowledgeSource) \<Rightarrow> database \<Rightarrow> database" where
  "update_source sid f db = db\<lparr>session := update_rows sid f (session db)\<rparr>"

definition db_commit :: "indexing_world \<Rightarrow> string \<Rightarrow> SourceStatus \<Rightarrow> database \<Rightarrow> string + database" where
  "db_commit w sid stage db =
     (case commit_error w sid stage of
        Some e \<Rightarrow> Inl e
      | None \<Rightarrow> Inr (db\<lparr>committed := session db\<rparr>))"

definition db_rollback :: "database \<Rightarrow> database" where
  "db_rollback db = db\<lparr>session := committed db\<rparr>"

text \<open>The dispatch on the source type.\<close>

definition fetch_chunks :: "indexing_world \<Rightarrow> KnowledgeSource \<Rightarrow> string + string Chunk list" where
  "fetch_chunks w source =
     (if source_type source = DOCUMENTATION then index_documentation w (source_url source)
      else if source_type source \<in> {GITHUB_OPERATOR, GITHUB_OPERAND}
        then index_github w (source_url source) (source_type_value (source_type source))
      else if source_type source = GITHUB_ISSUES then index_github_issues w (source_url source)
      else if source_type source = SLACK_HISTORY then index_slack_history w (source_url source)
      else Inr [])"

text \<open>\<open>if chunks:\<close> embed the texts and add them to the vector store.\<close>

definition embed_and_store :: "indexing_world \<Rightarrow> string Chunk list \<Rightarrow> string option" where
  "embed_and_store w chunks =
     (if chunks = [] then None
      else
        (case embed w (map content chunks) of
           Inl e \<Rightarrow> Some e
         | Inr embeddings \<Rightarrow> vector_add w (map content chunks) embeddings (map metadata chunks)))"

text \<open>
  The body of the \<open>try\<close> for one source: the database after it, or the text of the
  exception together with the database at the moment it is raised.
\<close>

definition try_index :: "indexing_world \<Rightarrow> database \<Rightarrow> KnowledgeSource \<Rightarrow> (string \<times> database) + database" where
  "try_index w db source =
     (let db1 = update_source (ks_id source) (\<lambda>r. r\<lparr>status := INDEXING\<rparr>) db in
      case db_commit w (ks_id source) INDEXING db1 of
        Inl e \<Rightarrow> Inl (e, db1)
      | Inr db2 \<Rightarrow>
          (case fetch_chunks w source of
             Inl e \<Rightarrow> Inl (e, db2)
           | Inr chunks \<Rightarrow>
               (case embed_and_store w chunks of
                  Some e \<Rightarrow> Inl (e, db2)
                | None \<Rightarrow>
                    (let db3 = update_source (ks_id source)
                           (\<lambda>r. r\<lparr>status := INDEXED, last_indexed_at := Some (utcnow w)\<rparr>) db2
                     in case db_commit w (ks_id source) INDEXED db3 of
                          Inl e \<Rightarrow> Inl (e, db3)
                        | Inr db4 \<Rightarrow> Inr db4))))"

text \<open>
  The \<open>except\<close> branch: roll back, then try to refresh the source, mark it failed with
  the first 500 characters of the exception text and commit; when that raises too,
  roll back and give up.
\<close>

definition record_failure :: "indexing_world \<Rightarrow> database \<Rightarrow> KnowledgeSource \<Rightarrow> string \<Rightarrow> database" where
  "record_failure w db source e =
     (let db1 = db_rollback db in
      case refresh_error w (ks_id source) of
        Some e' \<Rightarrow> db_rollback db1
      | None \<Rightarrow>
          (let db2 = update_source (ks_id source)
                 (\<lambda>r. r\<lparr>status := FAILED, error_message := Some (take 500 e)\<rparr>) db1
           in case db_commit w (ks_id source) FAILED db2 of
                Inl e' \<Rightarrow> db_rollback db2
              | Inr db3 \<Rightarrow> db3))"

definition index_source :: "indexing_world \<Rightarrow> database \<Rightarrow> KnowledgeSource \<Rightarrow> database" where
  "index_source w db source =
     (case try_index w db source of
        Inr db' \<Rightarrow> db'
      | Inl (e, db') \<Rightarrow> record_failure w db' source e)"

text \<open>The loop over the pending sources.\<close>

fun index_sources :: "indexing_world \<Rightarrow> database \<Rightarrow> KnowledgeSource list \<Rightarrow> database" where
  "index_sources w db [] = db"
| "index_sources w db (source # rest) = index_sources w (index_source w db source) rest"

text \<open>
  The completion message: "Ready! Indexed n knowledge source(s)..." when nothing
  failed, "Indexing done. n succeeded, m failed..." otherwise, with the Slack channel
  it is sent to. \<open>_notify_slack\<close> swallows the errors of the posting.
\<close>

datatype notification = Ready string nat | Mixed string nat nat

definition count_status :: "database \<Rightarrow> string \<Rightarrow> SourceStatus \<Rightarrow> nat" where
  "count_status db cid st =
     length (filter (\<lambda>r. channel_id r = cid \<and> status r = st) (session db))"

definition pending_sources :: "database \<Rightarrow> string \<Rightarrow> KnowledgeSource list" where
  "pending_sources db cid = filter (\<lambda>r. channel_id r = cid \<and> status r = PENDING) (session db)"

text \<open>
  \<open>_index_channel_sources\<close>: the database after the run and the notifications sent.
\<close>

definition index_channel_sources :: "indexing_world \<Rightarrow> database \<Rightarrow> string \<Rightarrow> database \<times> notification list" where
  "index_channel_sources w db cid =
     (let slack = (case find (\<lambda>ch. mc_id ch = cid) (channels db) of
                     Some channel \<Rightarrow> Some (slack_channel_id channel)
                   | None \<Rightarrow> None);
          db' = index_sources w db (pending_sources db cid)
      in (db',
          (case slack of
             None \<Rightarrow> []
           | Some sc \<Rightarrow>
               if sc = [] then []
               else
                 (let indexed = count_status db' cid INDEXED;
                      failed = count_status db' cid FAILED
                  in if failed = 0 then [Ready sc indexed] else [Mixed sc indexed failed]))))"

text \<open>The stored row of a source, by id.\<close>

definition stored :: "database \<Rightarrow> string \<Rightarrow> KnowledgeSource option" where
  "stored db sid = find (\<lambda>r. ks_id r = sid) (committed db)"

text \<open>
  A database between two runs: the session holds no uncommitted change and the ids are
  unique (\<open>id\<close> is the primary key).
\<close>

definition settled :: "database \<Rightarrow> bool" where
  "settled db = (session db = committed db \<and> distinct (map ks_id (committed db)))"

text \<open>
  An example: a channel with two pending documentation sources, and two worlds in which
  fetching the first source raises. In the second world the commit that records a
  failure raises as well.
\<close>

definition example_source :: "string \<Rightarrow> string \<Rightarrow> KnowledgeSource" where
  "example_source sid u = \<lparr>ks_id = sid, channel_id = ''c1'', source_type = DOCUMENTATION,
     source_url = u, status = PENDING, last_indexed_at = None, error_message = None\<rparr>"

definition example_db :: database where
  "example_db = \<lparr>channels = [\<lparr>mc_id = ''c1'', slack_channel_id = ''C123''\<rparr>],
     committed = [example_source ''a'' ''https://a.example/docs'', example_source ''b'' ''https://b.example/docs''],
     session = [example_source ''a'' ''https://a.example/docs'', example_source ''b'' ''https://b.example/docs'']\<rparr>"

definition example_world :: indexing_world where
  "example_world = \<lparr>commit_error = (\<lambda>sid stage. None), refresh_error = (\<lambda>sid. None),
     index_documentation = (\<lambda>u. if u = ''https://a.example/docs'' then Inl ''connection refused''
        else Inr [\<lparr>content = ''Install the operator'', metadata = [(''url'', u)]\<rparr>]),
     index_github = (\<lambda>u t. Inr []), index_github_issues = (\<lambda>u. Inr []),
     index_slack_history = (\<lambda>u. Inr []),
     embed = (\<lambda>texts. Inr (map (\<lambda>t. [0]) texts)), vector_add = (\<lambda>texts es ms. None),
     utcnow = 1700000000\<rparr>"

definition failing_world :: indexing_world where
  "failing_world = example_world\<lparr>commit_error :=
     (\<lambda>sid stage. if stage = FAILED then Some ''database is locked'' else None)\<rparr>"

section \<open>Vector store and query pipeline (app/retrieval/vector_store.py, app/query)\<close>

text \<open>
  The similarity index, the embedding model and the hosted language model are external.
  A \<open>backend\<close> holds what they answer: the number of documents in the channel's
  collection, and for each call either a result or the message of the exception it
  raises (\<open>Inl\<close>). Distances and scores are real numbers; the rounding of Python's
  floats is not modelled.
\<close>

record raw_results =
  documents :: "string list"
  metadatas :: "string metadata list"
  distances :: "real list"

record backend =
  collection_count :: nat
  collection_query :: "real list \<Rightarrow> nat \<Rightarrow> string + raw_results"
  encode_query :: "string \<Rightarrow> string + real list"
  messages_create :: "string \<Rightarrow> string \<Rightarrow> string + string"

record hit =
  hit_content :: string
  hit_metadata :: "string metadata"
  hit_score :: real

text \<open>
  \<open>VectorStore.query\<close>: the three result lists of the first query zipped into hits
  with \<open>score = 1 - distance\<close>; any exception of the index query gives the empty list.
\<close>

definition vector_store_query :: "backend \<Rightarrow> real list \<Rightarrow> nat \<Rightarrow> hit list" where
  "vector_store_query b query_embedding n_results =
     (case collection_query b query_embedding n_results of
        Inl e \<Rightarrow> []
      | Inr results \<Rightarrow>
          map (\<lambda>(doc, meta, dist). \<lparr>hit_content = doc, hit_metadata = meta, hit_score = 1 - dist\<rparr>)
            (zip (documents results) (zip (metadatas results) (distances results))))"

text \<open>
  \<open>generate_answer\<close> (app/query/llm.py): the response text is stripped, the first
  confidence marker found (HIGH, then MEDIUM, then LOW) sets the confidence and is
  removed; with no marker the confidence is medium. An error of the model call is
  raised again.
\<close>

definition generate_answer :: "backend \<Rightarrow> string \<Rightarrow> string \<Rightarrow> string + (string \<times> string)" where
  "generate_answer b question ctxt =
     (case messages_create b question ctxt of
        Inl e \<Rightarrow> Inl e
      | Inr response \<Rightarrow>
          (let full_response = strip response in
           if contains ''[CONFIDENCE:HIGH]'' full_response
             then Inr (strip (replace ''[CONFIDENCE:HIGH]'' [] full_response), ''high'')
           else if contains ''[CONFIDENCE:MEDIUM]'' full_response
             then Inr (strip (replace ''[CONFIDENCE:MEDIUM]'' [] full_response), ''medium'')
           else if contains ''[CONFIDENCE:LOW]'' full_response
             then Inr (strip (replace ''[CONFIDENCE:LOW]'' [] full_response), ''low'')
           else Inr (full_response, ''medium'')))"

record Answer =
  answer :: string
  sources :: "string list"
  confidence :: string

datatype pipeline_error = RuntimeError string | Uncaught string

text \<open>The external operations \<open>answer_question\<close> invokes, in the order it invokes them.\<close>

datatype call =
  LoadModel
  | Count
  | EmbedQuery string
  | IndexQuery "real list" nat
  | Generate string string

definition not_indexed_answer :: Answer where
  "not_indexed_answer =
     \<lparr>answer = ''I don'' @ [CHR 0x27] @ ''t have any knowledge indexed yet. Please configure my knowledge sources first!'',
      sources = [], confidence = ''low''\<rparr>"

definition nothing_found_answer :: Answer where
  "nothing_found_answer =
     \<lparr>answer = ''I couldn'' @ [CHR 0x27] @ ''t find relevant information to answer your question.'',
      sources = [], confidence = ''low''\<rparr>"

definition not_relevant_answer :: Answer where
  "not_relevant_answer =
     \<lparr>answer = ''I found some content but it doesn'' @ [CHR 0x27] @ ''t seem relevant to your question. Could you rephrase?'',
      sources = [], confidence = ''low''\<rparr>"

text \<open>
  \<open>metadata.get("url") or metadata.get("file_path")\<close>: the first of the two that is
  present and not empty.
\<close>

definition source_of :: "string metadata \<Rightarrow> string option" where
  "source_of md =
     (case map_of md ''url'' of
        Some u \<Rightarrow> if u \<noteq> [] then Some u else map_of md ''file_path''
      | None \<Rightarrow> map_of md ''file_path'')"

text \<open>
  The loop over the hits: the context parts and the sources collected so far. A hit
  below the relevance floor 0.3 is skipped; a source is recorded once.
\<close>

fun build_context :: "hit list \<Rightarrow> string list \<times> string list \<Rightarrow> string list \<times> string list" where
  "build_context [] st = st"
| "build_context (r # rs) (context_parts, srcs) =
     (if hit_score r < 0.3 then build_context rs (context_parts, srcs)
      else build_context rs
        (context_parts @ [hit_content r],
         (case source_of (hit_metadata r) of
            Some s \<Rightarrow> if s \<noteq> [] \<and> s \<notin> set srcs then srcs @ [s] else srcs
          | None \<Rightarrow> srcs)))"

definition context_separator :: string where
  "context_separator = [CHR 0x0A, CHR 0x0A] @ ''---'' @ [CHR 0x0A, CHR 0x0A]"

text \<open>
  \<open>answer_question\<close>: the answer, or the exception that leaves the function, and the
  external operations invoked. Constructing the \<open>Embedder\<close> loads the embedding model
  (when it is not loaded yet) but embeds nothing.
\<close>

definition answer_question :: "backend \<Rightarrow> string \<Rightarrow> (pipeline_error + Answer) \<times> call list" where
  "answer_question b question =
     (let doc_count = collection_count b in
      if doc_count = 0 then (Inr not_indexed_answer, [LoadModel, Count])
      else
        (case encode_query b question of
           Inl e \<Rightarrow> (Inl (Uncaught e), [LoadModel, Count, EmbedQuery question])
         | Inr query_embedding \<Rightarrow>
             (let results = vector_store_query b query_embedding 5;
                  trace = [LoadModel, Count, EmbedQuery question, IndexQuery query_embedding 5]
              in if results = [] then (Inr nothing_found_answer, trace)
                 else
                   (case build_context results ([], []) of
                      (context_parts, srcs) \<Rightarrow>
                        if context_parts = [] then (Inr not_relevant_answer, trace)
                        else
                          (let ctxt = join context_separator context_parts in
                           (case generate_answer b question ctxt of
                              Inl e \<Rightarrow> Inl (RuntimeError (''Failed to generate answer: '' @ e))
                            | Inr (a, conf) \<Rightarrow>
                                Inr \<lparr>answer = a, sources = take 3 srcs, confidence = conf\<rparr>,
                            trace @ [Generate question ctxt]))))))"

section \<open>Facts about the string operations\<close>

lemma strip_Nil: "strip [] = []"
  by (simp add: strip_def)

lemma strip_length: "length (strip s) \<le> length s"
proof -
  have "length (strip s) \<le> length (dropWhile isspace s)"
    unfolding strip_def using length_dropWhile_le [of isspace "rev (dropWhile isspace s)"] by simp
  also have "\<dots> \<le> length s" by (rule length_dropWhile_le)
  finally show ?thesis .
qed

lemma strip_decomp: "\<exists>l r. s = l @ strip s @ r \<and> (\<forall>ch \<in> set l. isspace ch) \<and> (\<forall>ch \<in> set r. isspace ch)"
proof -
  let ?t = "dropWhile isspace s"
  let ?u = "dropWhile isspace (rev ?t)"
  have a: "s = takeWhile isspace s @ ?t" by simp
  have "rev ?t = takeWhile isspace (rev ?t) @ ?u" by simp
  then have "?t = rev ?u @ rev (takeWhile isspace (rev ?t))"
    by (metis rev_append rev_rev_ident)
  with a have "s = takeWhile isspace s @ strip s @ rev (takeWhile isspace (rev ?t))"
    unfolding strip_def by simp
  moreover have "\<forall>ch \<in> set (takeWhile isspace s). isspace ch"
    by (auto dest: set_takeWhileD)
  moreover have "\<forall>ch \<in> set (rev (takeWhile isspace (rev ?t))). isspace ch"
    by (auto dest: set_takeWhileD)
  ultimately show ?thesis by blast
qed

lemma strip_sublist: "sublist (strip s) s"
  using strip_decomp [of s] unfolding sublist_def by blast

lemma strip_ends:
  assumes "strip s \<noteq> []"
  shows "\<not> isspace (hd (strip s))" and "\<not> isspace (last (strip s))"
proof -
  let ?t = "dropWhile isspace s"
  let ?u = "dropWhile isspace (rev ?t)"
  from assms have u: "?u \<noteq> []" by (simp add: strip_def)
  then have hu: "\<not> isspace (hd ?u)" by (rule hd_dropWhile)
  from u have "rev ?t \<noteq> []" by (metis dropWhile.simps(1))
  then have t: "?t \<noteq> []" by simp
  then have ht: "\<not> isspace (hd ?t)" by (rule hd_dropWhile)
  have "last (strip s) = hd ?u" using u by (simp add: strip_def last_rev)
  with hu show "\<not> isspace (last (strip s))" by simp
  have "suffix ?u (rev ?t)" by (rule suffix_dropWhile)
  then obtain ps where "rev ?t = ps @ ?u" by (auto simp: suffix_def)
  then have "last (rev ?t) = last ?u" using u by (metis last_appendR)
  then have "hd ?t = last ?u" using t by (simp add: last_rev)
  moreover have "hd (strip s) = last ?u" using u by (simp add: strip_def hd_rev)
  ultimately show "\<not> isspace (hd (strip s))" using ht by simp
qed

lemma strip_clean:
  assumes "s \<noteq> []" "\<not> isspace (hd s)" "\<not> isspace (last s)"
  shows "strip s = s"
proof -
  have a: "dropWhile isspace s = s" using assms by (cases s) auto
  have "rev s \<noteq> []" using assms by simp
  moreover have "\<not> isspace (hd (rev s))" using assms by (simp add: hd_rev)
  ultimately have "dropWhile isspace (rev s) = rev s" by (cases "rev s") auto
  with a show ?thesis by (simp add: strip_def)
qed

lemma strip_idem: "strip (strip s) = strip s"
proof (cases "strip s = []")
  case True
  then show ?thesis by (simp add: strip_Nil)
next
  case False
  then show ?thesis using strip_ends [OF False] by (intro strip_clean)
qed

lemma strip_nonempty_iff: "strip s \<noteq> [] \<longleftrightarrow> (\<exists>ch \<in> set s. \<not> isspace ch)"
proof
  assume a: "strip s \<noteq> []"
  then have "\<not> isspace (hd (strip s))" by (rule strip_ends)
  moreover have "hd (strip s) \<in> set (strip s)" using a by simp
  moreover have "set (strip s) \<subseteq> set s" using strip_sublist [of s] by (rule set_mono_sublist)
  ultimately show "\<exists>ch \<in> set s. \<not> isspace ch" by blast
next
  assume "\<exists>ch \<in> set s. \<not> isspace ch"
  then obtain ch where ch: "ch \<in> set s" "\<not> isspace ch" by blast
  obtain l r where d: "s = l @ strip s @ r" "\<forall>ch \<in> set l. isspace ch" "\<forall>ch \<in> set r. isspace ch"
    using strip_decomp [of s] by blast
  from ch d have "ch \<in> set (strip s)"
    by (metis Un_iff set_append)
  then show "strip s \<noteq> []" by auto
qed

lemma contains_sublist: "contains pat s \<longleftrightarrow> sublist pat s"
  by (induction s) (auto simp: sublist_Cons_right)

lemma contains_mono: "contains pat a \<Longrightarrow> sublist a b \<Longrightarrow> contains pat b"
  unfolding contains_sublist by (rule sublist_order.order.trans)


lemma split_nonempty: "split sep s \<noteq> []"
  by (induction sep s rule: split.induct) (auto simp: Let_def)

lemma split_hd_prefix: "prefix (hd (split sep s)) s"
  by (induction sep s rule: split.induct) (auto simp: Let_def)

lemma split_sublist: "p \<in> set (split sep s) \<Longrightarrow> sublist p s"
proof (induction sep s arbitrary: p rule: split.induct)
  case (1 sep)
  then show ?case by simp
next
  case (2 sep x xs)
  show ?case
  proof (cases "prefix sep (x # xs)")
    case True
    with 2 have "p = [] \<or> p \<in> set (split sep (drop (length sep - 1) xs))" by auto
    then show ?thesis
    proof
      assume "p = []" then show ?thesis by simp
    next
      assume "p \<in> set (split sep (drop (length sep - 1) xs))"
      with 2 True have "sublist p (drop (length sep - 1) xs)" by blast
      moreover have "sublist (drop (length sep - 1) xs) (x # xs)"
        by (metis sublist_Cons_right sublist_drop)
      ultimately show ?thesis by (rule sublist_order.order.trans)
    qed
  next
    case False
    let ?ps = "split sep xs"
    have ne: "?ps \<noteq> []" by (rule split_nonempty)
    from 2 False have "p = x # hd ?ps \<or> p \<in> set (tl ?ps)" by (auto simp: Let_def)
    then show ?thesis
    proof
      assume "p = x # hd ?ps"
      then have "prefix p (x # xs)" using split_hd_prefix [of sep xs] by simp
      then show ?thesis by (rule prefix_imp_sublist)
    next
      assume "p \<in> set (tl ?ps)"
      then have "p \<in> set ?ps" using ne by (metis list.set_sel(2))
      with 2 False have "sublist p xs" by blast
      then show ?thesis by (simp add: sublist_Cons_right)
    qed
  qed
qed

lemma join_split: "sep \<noteq> [] \<Longrightarrow> join sep (split sep s) = s"
proof (induction sep s rule: split.induct)
  case (1 sep)
  then show ?case by simp
next
  case (2 sep x xs)
  show ?case
  proof (cases "prefix sep (x # xs)")
    case True
    let ?r = "drop (length sep - 1) xs"
    obtain q qs where q: "split sep ?r = q # qs"
      using split_nonempty [of sep ?r] by (cases "split sep ?r") auto
    from True obtain zs where zs: "x # xs = sep @ zs" by (auto simp: prefix_def)
    with 2 have "?r = zs" by (cases sep) auto
    moreover from 2 True have "join sep (split sep ?r) = ?r" by simp
    ultimately have "join sep (q # qs) = zs" using q by simp
    moreover have "split sep (x # xs) = [] # q # qs" using True q by simp
    ultimately show ?thesis using zs by simp
  next
    case False
    obtain q qs where q: "split sep xs = q # qs"
      using split_nonempty [of sep xs] by (cases "split sep xs") auto
    from 2 False have "join sep (split sep xs) = xs" by simp
    then show ?thesis using False q by (cases qs) (auto simp: Let_def)
  qed
qed

lemma split_length_sum:
  "sep \<noteq> [] \<Longrightarrow> (\<Sum>p\<leftarrow>split sep s. length p + length sep) = length s + length sep"
proof (induction sep s rule: split.induct)
  case (1 sep)
  then show ?case by simp
next
  case (2 sep x xs)
  show ?case
  proof (cases "prefix sep (x # xs)")
    case True
    then have "length sep \<le> Suc (length xs)" by (auto dest: prefix_length_le)
    with 2 True show ?thesis by (cases sep) auto
  next
    case False
    obtain q qs where q: "split sep xs = q # qs"
      using split_nonempty [of sep xs] by (cases "split sep xs") auto
    with 2 False show ?thesis by (simp add: Let_def)
  qed
qed

lemma split_no_sep: "\<not> contains sep s \<Longrightarrow> split sep s = [s]"
  by (induction sep s rule: split.induct) (auto simp: Let_def)

lemma split_char_notin: "p \<in> set (split [ch] s) \<Longrightarrow> ch \<notin> set p"
proof (induction "[ch]" s arbitrary: p rule: split.induct)
  case 1
  then show ?case by simp
next
  case (2 x xs)
  show ?case
  proof (cases "x = ch")
    case True
    with 2 show ?thesis by auto
  next
    case False
    let ?ps = "split [ch] xs"
    have ne: "?ps \<noteq> []" by (rule split_nonempty)
    then have "hd ?ps \<in> set ?ps" by simp
    moreover have "set (tl ?ps) \<subseteq> set ?ps" using ne by (metis list.set_sel(2) subsetI)
    ultimately show ?thesis using 2 False by (auto simp: Let_def)
  qed
qed

lemma set_join: "set (join sep ps) \<subseteq> set sep \<union> \<Union> (set ` set ps)"
  by (induction sep ps rule: join.induct) auto

lemma replace_hd: "replace ''. '' [CHR ''.'', CHR 0x0A] s \<noteq> [] \<Longrightarrow> hd (replace ''. '' [CHR ''.'', CHR 0x0A] s) = hd s"
  by (cases s) auto

lemma replace_no_dot_space_aux:
  "old = ''. '' \<Longrightarrow> new = [CHR ''.'', CHR 0x0A] \<Longrightarrow> \<not> contains old (replace old new s)"
proof (induction old new s rule: replace.induct)
  case (1 old new)
  then show ?case by simp
next
  case (2 old new x xs)
  show ?case
  proof (cases "prefix old (x # xs)")
    case True
    then obtain ys where ys: "xs = CHR '' '' # ys" and x: "x = CHR ''.''"
      using 2(3) by (cases xs) auto
    have "\<not> contains old (replace old new (drop (length old - 1) xs))"
      using 2(1) [OF True 2(3) 2(4)] .
    then have "\<not> contains old (replace old new ys)" using ys 2(3) by simp
    moreover have "replace old new (x # xs) = CHR ''.'' # CHR 0x0A # replace old new ys"
      using True ys 2(3) 2(4) by simp
    ultimately show ?thesis using 2(3) by simp
  next
    case False
    let ?r = "replace old new xs"
    have ih: "\<not> contains old ?r" using 2(2) [OF False 2(3) 2(4)] .
    have "\<not> prefix old (x # ?r)"
    proof
      assume a: "prefix old (x # ?r)"
      then have x: "x = CHR ''.''" and "prefix '' '' ?r" using 2(3) by auto
      then have "?r \<noteq> []" "hd ?r = CHR '' ''" by (auto simp: prefix_def)
      then have "xs \<noteq> []" "hd xs = CHR '' ''" using replace_hd [of xs] 2(3) 2(4) by auto
      then have "prefix old (x # xs)" using x 2(3) by (cases xs) auto
      with False show False by simp
    qed
    moreover have "replace old new (x # xs) = x # ?r" using False by simp
    ultimately show ?thesis using ih by simp
  qed
qed

lemma replace_no_dot_space: "\<not> contains ''. '' (replace ''. '' [CHR ''.'', CHR 0x0A] s)"
  by (rule replace_no_dot_space_aux) simp_all

section \<open>Chunker: properties\<close>

lemma flush_content: "ch \<in> set (flush md cur) \<Longrightarrow> content ch = strip cur"
  by (auto simp: flush_def split: if_splits)

lemma flush_nonempty: "ch \<in> set (flush md cur) \<Longrightarrow> cur \<noteq> []"
  by (auto simp: flush_def strip_Nil split: if_splits)

lemma sentence_shape:
  assumes "s \<in> set (sentences text)"
  shows "\<not> contains ''. '' (strip s)" and "CHR 0x0A \<notin> set (strip s)"
proof -
  let ?r = "replace ''. '' [CHR ''.'', CHR 0x0A] text"
  from assms have s: "s \<in> set (split [CHR 0x0A] ?r)" by (simp add: sentences_def)
  then have "sublist s ?r" by (rule split_sublist)
  with strip_sublist [of s] have "sublist (strip s) ?r"
    by (rule sublist_order.order.trans)
  then show "\<not> contains ''. '' (strip s)"
    using replace_no_dot_space [of "text"] contains_mono by blast
  from s have "CHR 0x0A \<notin> set s" by (rule split_char_notin)
  moreover have "set (strip s) \<subseteq> set s" using strip_sublist [of s] by (rule set_mono_sublist)
  ultimately show "CHR 0x0A \<notin> set (strip s)" by blast
qed

lemma split_large_loop_bound:
  assumes "\<forall>s \<in> set ss. one_sentence (strip s)"
    and "int (length cur) \<le> chunk_size c + 1 \<or> one_sentence (strip cur)"
    and "ch \<in> set (split_large_loop c md cur ss)"
  shows "int (length (content ch)) \<le> chunk_size c + 1 \<or> one_sentence (content ch)"
  using assms
proof (induction ss arbitrary: cur)
  case Nil
  then have "content ch = strip cur" by (simp add: flush_content)
  with Nil(2) strip_length [of cur] show ?case by auto
next
  case (Cons s0 ss)
  let ?s = "strip s0"
  show ?case
  proof (cases "?s = []")
    case True
    with Cons show ?thesis by simp
  next
    case False
    show ?thesis
    proof (cases "int (length cur) + int (length ?s) > chunk_size c")
      case True
      with False Cons.prems(3)
      have "ch \<in> set (flush md cur) \<or> ch \<in> set (split_large_loop c md ?s ss)" by (auto simp: Let_def)
      then show ?thesis
      proof
        assume "ch \<in> set (flush md cur)"
        then have "content ch = strip cur" by (rule flush_content)
        with Cons.prems(2) strip_length [of cur] show ?thesis by auto
      next
        assume a: "ch \<in> set (split_large_loop c md ?s ss)"
        have "one_sentence (strip ?s)" using Cons.prems(1) by (simp add: strip_idem)
        with Cons.IH [of ?s] Cons.prems(1) a show ?thesis by simp
      qed
    next
      case no: False
      let ?cur' = "if cur \<noteq> [] then cur @ '' '' @ ?s else ?s"
      from no False Cons.prems(3) have a: "ch \<in> set (split_large_loop c md ?cur' ss)"
        by (simp add: Let_def)
      have "int (length ?cur') \<le> chunk_size c + 1" using no by auto
      with Cons.IH [of ?cur'] Cons.prems(1) a show ?thesis by simp
    qed
  qed
qed

lemma split_large_text_bound:
  assumes "ch \<in> set (split_large_text c text md)"
  shows "int (length (content ch)) \<le> chunk_size c + 1 \<or> one_sentence (content ch)"
proof -
  have "\<forall>s \<in> set (sentences text). one_sentence (strip s)"
    using sentence_shape by (simp add: one_sentence_def)
  moreover have "one_sentence (strip [])" by (simp add: one_sentence_def strip_Nil)
  ultimately show ?thesis
    using assms split_large_loop_bound [of "sentences text" "[]" c ch md]
    by (simp add: split_large_text_def)
qed

lemma overlap_of_length:
  "0 < chunk_overlap c \<Longrightarrow> int (length (overlap_of c cur)) \<le> chunk_overlap c"
  by (auto simp: overlap_of_def slice_from_def Let_def)

lemma chunk_step_bound:
  assumes ov: "0 < chunk_overlap c"
    and cur: "cur = [] \<or> int (length cur) \<le> chunk_size c + chunk_overlap c + 2"
    and st: "chunk_step c md cur p = (out, cur')"
  shows "(\<forall>ch \<in> set out. size_ok c (content ch))
     \<and> (cur' = [] \<or> int (length cur') \<le> chunk_size c + chunk_overlap c + 2)"
proof -
  have fl: "\<forall>ch \<in> set (flush md cur). size_ok c (content ch)"
  proof
    fix ch assume a: "ch \<in> set (flush md cur)"
    then have "content ch = strip cur" by (rule flush_content)
    moreover have "int (length (strip cur)) \<le> chunk_size c + chunk_overlap c + 2"
      using cur strip_length [of cur] flush_nonempty [OF a] by auto
    ultimately show "size_ok c (content ch)" by (simp add: size_ok_def)
  qed
  have lg: "\<forall>ch \<in> set (split_large_text c p md). size_ok c (content ch)"
  proof
    fix ch assume "ch \<in> set (split_large_text c p md)"
    then have "int (length (content ch)) \<le> chunk_size c + 1 \<or> one_sentence (content ch)"
      by (rule split_large_text_bound)
    then show "size_ok c (content ch)" using ov by (auto simp: size_ok_def)
  qed
  show ?thesis
  proof (cases "int (length cur) + int (length p) > chunk_size c")
    case True
    show ?thesis
    proof (cases "int (length p) > chunk_size c")
      case big: True
      with True st have "out = flush md cur @ split_large_text c p md" "cur' = []"
        by (auto simp: chunk_step_def)
      with fl lg show ?thesis by auto
    next
      case small: False
      with True st have o: "out = flush md cur"
        and c': "cur' = (if overlap_of c cur \<noteq> [] then overlap_of c cur @ [CHR 0x0A, CHR 0x0A] @ p else p)"
        by (auto simp: chunk_step_def Let_def)
      have "int (length cur') \<le> chunk_size c + chunk_overlap c + 2"
        using c' small overlap_of_length [OF ov, of cur] ov by auto
      with o fl show ?thesis by simp
    qed
  next
    case False
    with st have "out = []" "cur' = (if cur \<noteq> [] then cur @ [CHR 0x0A, CHR 0x0A] @ p else p)"
      by (auto simp: chunk_step_def)
    moreover have "int (length (if cur \<noteq> [] then cur @ [CHR 0x0A, CHR 0x0A] @ p else p)) \<le> chunk_size c + chunk_overlap c + 2"
      using False ov by auto
    ultimately show ?thesis by simp
  qed
qed

lemma chunk_loop_bound:
  assumes "0 < chunk_overlap c"
    and "cur = [] \<or> int (length cur) \<le> chunk_size c + chunk_overlap c + 2"
    and "ch \<in> set (chunk_loop c md cur ps)"
  shows "size_ok c (content ch)"
  using assms(2,3)
proof (induction ps arbitrary: cur)
  case Nil
  then have a: "ch \<in> set (flush md cur)" by simp
  then have "content ch = strip cur" by (rule flush_content)
  moreover have "int (length (strip cur)) \<le> chunk_size c + chunk_overlap c + 2"
    using Nil(1) strip_length [of cur] flush_nonempty [OF a] by auto
  ultimately show ?case by (simp add: size_ok_def)
next
  case (Cons p0 ps)
  show ?case
  proof (cases "strip p0 = []")
    case True
    with Cons show ?thesis by simp
  next
    case False
    obtain out cur' where st: "chunk_step c md cur (strip p0) = (out, cur')"
      by (cases "chunk_step c md cur (strip p0)")
    from chunk_step_bound [OF assms(1) Cons.prems(1) st]
    have o: "\<forall>ch \<in> set out. size_ok c (content ch)"
      and c': "cur' = [] \<or> int (length cur') \<le> chunk_size c + chunk_overlap c + 2" by auto
    from Cons.prems(2) False st have "ch \<in> set out \<or> ch \<in> set (chunk_loop c md cur' ps)"
      by (auto simp: Let_def)
    then show ?thesis using o Cons.IH [OF c'] by blast
  qed
qed


lemma chunk_loop_no_flush:
  assumes "int (length cur) + (if cur = [] then 0 else 2) + (\<Sum>p\<leftarrow>ps. int (length p) + 2) \<le> chunk_size c + 2"
  shows "chunk_loop c md cur ps = flush md (foldl add_paragraph cur (filter (\<lambda>p. p \<noteq> []) (map strip ps)))"
  using assms
proof (induction ps arbitrary: cur)
  case Nil
  then show ?case by simp
next
  case (Cons p0 ps)
  have nn: "0 \<le> (\<Sum>p\<leftarrow>ps. int (length p) + 2)" by (rule sum_list_nonneg) auto
  show ?case
  proof (cases "strip p0 = []")
    case True
    have "int (length cur) + (if cur = [] then 0 else 2) + (\<Sum>p\<leftarrow>ps. int (length p) + 2) \<le> chunk_size c + 2"
      using Cons.prems by simp
    from Cons.IH [OF this] True show ?thesis by simp
  next
    case False
    let ?p = "strip p0"
    have le: "int (length ?p) \<le> int (length p0)" using strip_length [of p0] by simp
    have fit: "\<not> int (length cur) + int (length ?p) > chunk_size c"
      using Cons.prems le nn by (auto split: if_splits)
    then have st: "chunk_step c md cur ?p = ([], add_paragraph cur ?p)"
      by (simp add: chunk_step_def add_paragraph_def)
    have ne: "add_paragraph cur ?p \<noteq> []" using False by (simp add: add_paragraph_def)
    have "int (length (add_paragraph cur ?p)) + 2 + (\<Sum>p\<leftarrow>ps. int (length p) + 2) \<le> chunk_size c + 2"
      using Cons.prems le by (auto simp: add_paragraph_def split: if_splits)
    then have "int (length (add_paragraph cur ?p)) + (if add_paragraph cur ?p = [] then 0 else 2) + (\<Sum>p\<leftarrow>ps. int (length p) + 2) \<le> chunk_size c + 2"
      using ne by simp
    from Cons.IH [OF this] False st show ?thesis by simp
  qed
qed

lemma join_add_Cons:
  "join [CHR 0x0A, CHR 0x0A] (add_paragraph cur p # ps) =
     (if cur \<noteq> [] then join [CHR 0x0A, CHR 0x0A] (cur # p # ps) else join [CHR 0x0A, CHR 0x0A] (p # ps))"
  by (cases ps) (auto simp: add_paragraph_def)

lemma foldl_add_join:
  "\<forall>p \<in> set ps. p \<noteq> [] \<Longrightarrow> cur \<noteq> [] \<Longrightarrow> foldl add_paragraph cur ps = join [CHR 0x0A, CHR 0x0A] (cur # ps)"
proof (induction ps arbitrary: cur)
  case Nil
  then show ?case by simp
next
  case (Cons p ps)
  have "add_paragraph cur p \<noteq> []" using Cons.prems by (simp add: add_paragraph_def)
  with Cons have "foldl add_paragraph (add_paragraph cur p) ps = join [CHR 0x0A, CHR 0x0A] (add_paragraph cur p # ps)" by simp
  then show ?case using Cons.prems(2) by (simp add: join_add_Cons)
qed

lemma foldl_add_Nil:
  "\<forall>p \<in> set ps. p \<noteq> [] \<Longrightarrow> foldl add_paragraph [] ps = join [CHR 0x0A, CHR 0x0A] ps"
proof (cases ps)
  case Nil
  then show ?thesis by simp
next
  case (Cons p qs)
  assume a: "\<forall>p \<in> set ps. p \<noteq> []"
  with Cons have "foldl add_paragraph [] ps = foldl add_paragraph p qs" by (simp add: add_paragraph_def)
  also have "\<dots> = join [CHR 0x0A, CHR 0x0A] (p # qs)" using a Cons by (intro foldl_add_join) auto
  finally show ?thesis using Cons by simp
qed

lemma join_hd_last:
  assumes "ps \<noteq> []" "\<forall>p \<in> set ps. p \<noteq> []"
  shows "join sep ps \<noteq> [] \<and> hd (join sep ps) = hd (hd ps) \<and> last (join sep ps) = last (last ps)"
  using assms by (induction sep ps rule: join.induct) auto

lemma paragraphs_clean:
  assumes "p \<in> set (paragraphs t)"
  shows "p \<noteq> []" "\<not> isspace (hd p)" "\<not> isspace (last p)"
  using assms strip_ends unfolding paragraphs_def by auto

lemma paragraphs_nonempty:
  assumes "strip t \<noteq> []"
  shows "paragraphs t \<noteq> []"
proof -
  from assms obtain ch where ch: "ch \<in> set t" "\<not> isspace ch" by (auto simp: strip_nonempty_iff)
  have "join [CHR 0x0A, CHR 0x0A] (split [CHR 0x0A, CHR 0x0A] t) = t" by (rule join_split) simp
  then have "ch \<in> set (join [CHR 0x0A, CHR 0x0A] (split [CHR 0x0A, CHR 0x0A] t))" using ch by simp
  then have "ch \<in> set [CHR 0x0A, CHR 0x0A] \<union> \<Union> (set ` set (split [CHR 0x0A, CHR 0x0A] t))"
    using set_join by blast
  moreover have "isspace (CHR 0x0A)" by (simp add: isspace_def)
  ultimately obtain p where p: "p \<in> set (split [CHR 0x0A, CHR 0x0A] t)" "ch \<in> set p"
    using ch(2) by auto
  then have "strip p \<noteq> []" using ch(2) by (auto simp: strip_nonempty_iff)
  with p show ?thesis by (auto simp: paragraphs_def filter_empty_conv)
qed

lemma chunk_text_small:
  assumes ne: "strip text \<noteq> []" and sz: "int (length (strip text)) \<le> chunk_size c"
  shows "chunk_text c text md =
    [\<lparr>content = join [CHR 0x0A, CHR 0x0A] (paragraphs (strip text)), metadata = md\<rparr>]"
proof -
  let ?t = "strip text"
  let ?nl = "[CHR 0x0A, CHR 0x0A]"
  let ?ps = "paragraphs ?t"
  have "(\<Sum>p\<leftarrow>split ?nl ?t. length p + length ?nl) = length ?t + length ?nl"
    by (rule split_length_sum) simp
  then have "int (\<Sum>p\<leftarrow>split ?nl ?t. length p + 2) = int (length ?t) + 2" by simp
  moreover have "int (\<Sum>p\<leftarrow>xs. length p + 2) = (\<Sum>p\<leftarrow>xs. int (length p) + 2)" for xs :: "string list"
    by (induction xs) auto
  ultimately have "int (length ([]::string)) + (if ([]::string) = [] then 0 else 2) + (\<Sum>p\<leftarrow>split ?nl ?t. int (length p) + 2) \<le> chunk_size c + 2"
    using sz by simp
  from chunk_loop_no_flush [OF this]
  have "chunk_loop c md [] (split ?nl ?t) = flush md (foldl add_paragraph [] ?ps)"
    by (simp add: paragraphs_def)
  also have "foldl add_paragraph [] ?ps = join ?nl ?ps"
    using paragraphs_clean(1) by (intro foldl_add_Nil) blast
  finally have a: "chunk_text c text md = flush md (join ?nl ?ps)"
    using ne by (simp add: chunk_text_def Let_def)
  have pne: "?ps \<noteq> []" using ne by (intro paragraphs_nonempty) (simp add: strip_idem)
  have all: "\<forall>p \<in> set ?ps. p \<noteq> []" using paragraphs_clean(1) by blast
  from join_hd_last [OF pne all, of ?nl]
  have j: "join ?nl ?ps \<noteq> []" "hd (join ?nl ?ps) = hd (hd ?ps)" "last (join ?nl ?ps) = last (last ?ps)"
    by auto
  have "hd ?ps \<in> set ?ps" "last ?ps \<in> set ?ps" using pne by auto
  then have "\<not> isspace (hd (hd ?ps))" "\<not> isspace (last (last ?ps))"
    using paragraphs_clean by blast+
  with j have "strip (join ?nl ?ps) = join ?nl ?ps" by (intro strip_clean) auto
  with a j(1) show ?thesis by (simp add: flush_def)
qed

lemma paragraphs_single:
  assumes "strip t = t" "t \<noteq> []" "\<not> contains [CHR 0x0A, CHR 0x0A] t"
  shows "paragraphs t = [t]"
  using assms by (simp add: paragraphs_def split_no_sep)


lemma split_nl2_append:
  "CHR 0x0A \<notin> set a \<Longrightarrow>
     split [CHR 0x0A, CHR 0x0A] (a @ CHR 0x0A # CHR 0x0A # b) = a # split [CHR 0x0A, CHR 0x0A] b"
  by (induction a) (auto simp: Let_def)

lemma contains_nl2: "CHR 0x0A \<notin> set s \<Longrightarrow> \<not> contains [CHR 0x0A, CHR 0x0A] s"
  by (induction s) auto

lemma split_two_paragraphs:
  assumes "CHR 0x0A \<notin> set a" "CHR 0x0A \<notin> set b"
  shows "split [CHR 0x0A, CHR 0x0A] (a @ CHR 0x0A # CHR 0x0A # b) = [a, b]"
  using assms by (simp add: split_nl2_append split_no_sep contains_nl2)

lemma chunk_text_two_apart:
  assumes a: "a \<noteq> []" "\<not> isspace (hd a)" "\<not> isspace (last a)" "CHR 0x0A \<notin> set a"
    and b: "b \<noteq> []" "\<not> isspace (hd b)" "\<not> isspace (last b)" "CHR 0x0A \<notin> set b"
    and big: "int (length a) + int (length b) > chunk_size c"
    and fa: "int (length a) \<le> chunk_size c" and fb: "int (length b) \<le> chunk_size c"
    and short: "int (length a) \<le> chunk_overlap c"
  shows "chunk_text c (a @ CHR 0x0A # CHR 0x0A # b) md =
     [\<lparr>content = a, metadata = md\<rparr>, \<lparr>content = b, metadata = md\<rparr>]"
proof -
  let ?t = "a @ CHR 0x0A # CHR 0x0A # b"
  have t: "strip ?t = ?t" using a b by (intro strip_clean) auto
  have sa: "strip a = a" using a by (intro strip_clean) auto
  have sb: "strip b = b" using b by (intro strip_clean) auto
  have s1: "chunk_step c md [] a = ([], a)" using fa by (simp add: chunk_step_def)
  have s2: "chunk_step c md a b = (flush md a, b)"
    using big fb short by (simp add: chunk_step_def overlap_of_def)
  have "chunk_loop c md [] [a, b] = flush md a @ flush md b" using sa sb a(1) b(1) s1 s2 by simp
  then show ?thesis using t sa sb a(1) b(1) assms(4,8)
    by (simp add: chunk_text_def split_two_paragraphs flush_def)
qed

lemma chunk_text_two_overlap:
  assumes a: "a \<noteq> []" "\<forall>ch \<in> set a. \<not> isspace ch"
    and b: "b \<noteq> []" "\<not> isspace (hd b)" "\<not> isspace (last b)" "CHR 0x0A \<notin> set b"
    and big: "int (length a) + int (length b) > chunk_size c"
    and fa: "int (length a) \<le> chunk_size c" and fb: "int (length b) \<le> chunk_size c"
    and ov: "0 < chunk_overlap c" "chunk_overlap c < int (length a)"
  shows "chunk_text c (a @ CHR 0x0A # CHR 0x0A # b) md =
     [\<lparr>content = a, metadata = md\<rparr>,
      \<lparr>content = drop (length a - nat (chunk_overlap c)) a @ CHR 0x0A # CHR 0x0A # b, metadata = md\<rparr>]"
proof -
  let ?t = "a @ CHR 0x0A # CHR 0x0A # b"
  let ?o = "drop (length a - nat (chunk_overlap c)) a"
  have nl: "CHR 0x0A \<notin> set a" using a(2) by (auto simp: isspace_def)
  have ha: "\<not> isspace (hd a)" "\<not> isspace (last a)" using a by simp_all
  have t: "strip ?t = ?t" using a(1) ha b by (intro strip_clean) auto
  have sa: "strip a = a" using a(1) ha by (intro strip_clean) auto
  have sb: "strip b = b" using b by (intro strip_clean) auto
  have one: "?o \<noteq> []" using ov by simp
  then have "hd ?o \<in> set a" by (metis hd_in_set in_set_dropD)
  then have "\<not> isspace (hd ?o)" using a(2) by blast
  then have so: "strip (?o @ CHR 0x0A # CHR 0x0A # b) = ?o @ CHR 0x0A # CHR 0x0A # b"
    using one b by (intro strip_clean) auto
  have s1: "chunk_step c md [] a = ([], a)" using fa by (simp add: chunk_step_def)
  have "overlap_of c a = ?o"
    using ov by (simp add: overlap_of_def slice_from_def Let_def nat_diff_distrib')
  then have s2: "chunk_step c md a b = (flush md a, ?o @ CHR 0x0A # CHR 0x0A # b)"
    using big fb one by (simp add: chunk_step_def Let_def)
  have "chunk_loop c md [] [a, b] = flush md a @ flush md (?o @ CHR 0x0A # CHR 0x0A # b)"
    using sa sb a(1) b(1) s1 s2 by simp
  then show ?thesis using t sa so a(1) nl b(4)
    by (simp add: chunk_text_def split_two_paragraphs flush_def)
qed

section \<open>Crawler: properties\<close>

declare crawl_recursive.simps [simp del]

lemma visited_mark [simp]: "visited (mark_visited st u) = visited st @ [u]"
  by (simp add: mark_visited_def)

lemma visited_yield [simp]: "visited (yield_page st u t ct) = visited st"
  by (simp add: yield_page_def)

lemma crawl_recursive_skip:
  "max_depth c < depth \<or> max_pages c \<le> int (length (visited st))
     \<or> normalize_url url \<in> set (visited st) \<or> \<not> is_valid_url c (normalize_url url)
   \<Longrightarrow> crawl_recursive c site url depth st = st"
  by (subst crawl_recursive.simps) auto

lemma crawl_recursive_leaf:
  assumes "\<not> max_depth c < depth" "\<not> max_pages c \<le> int (length (visited st))"
    "normalize_url url \<notin> set (visited st)" "is_valid_url c (normalize_url url)"
    "site (normalize_url url) = RequestFailed \<or> site (normalize_url url) = NotHtml"
  shows "crawl_recursive c site url depth st = mark_visited st (normalize_url url)"
  using assms by (subst crawl_recursive.simps) auto

lemma crawl_recursive_page:
  assumes "\<not> max_depth c < depth" "\<not> max_pages c \<le> int (length (visited st))"
    "normalize_url url \<notin> set (visited st)" "is_valid_url c (normalize_url url)"
    "site (normalize_url url) = Page t ct urls"
  shows "crawl_recursive c site url depth st =
     crawl_links c site (extract_links c urls (visited (mark_visited st (normalize_url url))))
       (depth + 1) (yield_page (mark_visited st (normalize_url url)) (normalize_url url) t ct)"
  using assms by (subst crawl_recursive.simps) auto

lemma crawl_visited_prefix:
  "prefix (visited st) (visited (crawl_recursive c site url depth st))"
  "prefix (visited st) (visited (crawl_links c site links depth st))"
proof (induction c site url depth st and c site links depth st
    rule: crawl_recursive_crawl_links.induct)
  case (1 c site url depth st)
  let ?u = "normalize_url url"
  show ?case
  proof (cases "max_depth c < depth \<or> max_pages c \<le> int (length (visited st))
     \<or> ?u \<in> set (visited st) \<or> \<not> is_valid_url c ?u")
    case True
    then show ?thesis by (simp add: crawl_recursive_skip)
  next
    case False
    show ?thesis
    proof (cases "site ?u")
      case RequestFailed
      with False show ?thesis by (simp add: crawl_recursive_leaf)
    next
      case NotHtml
      with False show ?thesis by (simp add: crawl_recursive_leaf)
    next
      case (Page t ct urls)
      with False 1 have "prefix (visited (yield_page (mark_visited st ?u) ?u t ct))
        (visited (crawl_links c site (extract_links c urls (visited (mark_visited st ?u)))
           (depth + 1) (yield_page (mark_visited st ?u) ?u t ct)))" by simp
      then have "prefix (visited st @ [?u]) (visited (crawl_recursive c site url depth st))"
        using False Page by (simp add: crawl_recursive_page)
      then show ?thesis by (rule append_prefixD)
    qed
  qed
next
  case (2 c site depth st)
  then show ?case by simp
next
  case (3 c site link links depth st)
  then show ?case by (auto intro: prefix_order.trans)
qed


lemma crawl_visited_length_mono:
  "length (visited st) \<le> length (visited (crawl_recursive c site url depth st))"
  "length (visited st) \<le> length (visited (crawl_links c site links depth st))"
  by (rule prefix_length_le, rule crawl_visited_prefix)+

lemma crawl_visited_subset:
  "set (visited st) \<subseteq> set (visited (crawl_recursive c site url depth st))"
  "set (visited st) \<subseteq> set (visited (crawl_links c site links depth st))"
  by (rule set_mono_prefix, rule crawl_visited_prefix)+

lemma crawl_visited_distinct:
  "distinct (visited st) \<Longrightarrow> distinct (visited (crawl_recursive c site url depth st))"
  "distinct (visited st) \<Longrightarrow> distinct (visited (crawl_links c site links depth st))"
proof (induction c site url depth st and c site links depth st
    rule: crawl_recursive_crawl_links.induct)
  case (1 c site url depth st)
  let ?u = "normalize_url url"
  show ?case
  proof (cases "max_depth c < depth \<or> max_pages c \<le> int (length (visited st))
     \<or> ?u \<in> set (visited st) \<or> \<not> is_valid_url c ?u")
    case True
    then show ?thesis using 1(2) by (simp add: crawl_recursive_skip)
  next
    case False
    show ?thesis
    proof (cases "site ?u")
      case RequestFailed
      with False 1(2) show ?thesis by (simp add: crawl_recursive_leaf)
    next
      case NotHtml
      with False 1(2) show ?thesis by (simp add: crawl_recursive_leaf)
    next
      case (Page t ct urls)
      have "distinct (visited (yield_page (mark_visited st ?u) ?u t ct))"
        using False 1(2) by simp
      with False Page 1(1) show ?thesis by (simp add: crawl_recursive_page)
    qed
  qed
next
  case (2 c site depth st)
  then show ?case by simp
next
  case (3 c site link links depth st)
  then show ?case by simp
qed

lemma crawl_visited_bound:
  "int (length (visited (crawl_recursive c site url depth st)))
     \<le> max (int (length (visited st))) (max_pages c)"
  "int (length (visited (crawl_links c site links depth st)))
     \<le> max (int (length (visited st))) (max_pages c)"
proof (induction c site url depth st and c site links depth st
    rule: crawl_recursive_crawl_links.induct)
  case (1 c site url depth st)
  let ?u = "normalize_url url"
  show ?case
  proof (cases "max_depth c < depth \<or> max_pages c \<le> int (length (visited st))
     \<or> ?u \<in> set (visited st) \<or> \<not> is_valid_url c ?u")
    case True
    then show ?thesis by (simp add: crawl_recursive_skip)
  next
    case False
    show ?thesis
    proof (cases "site ?u")
      case RequestFailed
      with False show ?thesis by (auto simp: crawl_recursive_leaf)
    next
      case NotHtml
      with False show ?thesis by (auto simp: crawl_recursive_leaf)
    next
      case (Page t ct urls)
      with False 1 have "int (length (visited (crawl_recursive c site url depth st)))
        \<le> max (int (length (visited (yield_page (mark_visited st ?u) ?u t ct)))) (max_pages c)"
        by (simp add: crawl_recursive_page)
      then show ?thesis using False by auto
    qed
  qed
next
  case (2 c site depth st)
  then show ?case by simp
next
  case (3 c site link links depth st)
  then show ?case by (smt (verit) crawl_links.simps(2))
qed


lemma hd_split_char: "hd (split [ch] s) = takeWhile (\<lambda>x. x \<noteq> ch) s"
  by (induction s) (auto simp: Let_def)

lemma rstrip_slash_subset: "set (rstrip_slash s) \<subseteq> set s"
  unfolding rstrip_slash_def using set_dropWhileD [of _ "\<lambda>ch. ch = CHR ''/''" "rev s"] by auto

lemma rstrip_slash_idem: "rstrip_slash (rstrip_slash s) = rstrip_slash s"
  by (simp add: rstrip_slash_def)

lemma normalize_url_idem: "normalize_url (normalize_url u) = normalize_url u"
proof -
  let ?t = "takeWhile (\<lambda>x. x \<noteq> CHR ''#'') u"
  have "CHR ''#'' \<notin> set ?t" by (auto dest: set_takeWhileD)
  then have "CHR ''#'' \<notin> set (rstrip_slash ?t)" using rstrip_slash_subset by blast
  then have "takeWhile (\<lambda>x. x \<noteq> CHR ''#'') (rstrip_slash ?t) = rstrip_slash ?t"
    by (auto simp: takeWhile_eq_all_conv)
  then have "rstrip_slash (takeWhile (\<lambda>x. x \<noteq> CHR ''#'') (rstrip_slash ?t)) = rstrip_slash ?t"
    by (simp only: rstrip_slash_idem)
  then show ?thesis by (simp only: normalize_url_def hd_split_char)
qed

lemma links_of_normalized: "v \<in> set (links_of c site u) \<Longrightarrow> normalize_url v = v \<and> is_valid_url c v"
  by (auto simp: links_of_def normalize_url_idem split: response.splits)

lemma extract_links_set:
  "site u = Page t ct urls \<Longrightarrow> set (extract_links c urls seen) = set (links_of c site u) - set seen"
  by (auto simp: extract_links_def links_of_def)

lemma crawl_closed:
  "int (length (visited (crawl_recursive c site url depth st))) < max_pages c \<Longrightarrow>
   depth + (int (length (visited (crawl_recursive c site url depth st))) - int (length (visited st)))
      \<le> max_depth c \<Longrightarrow>
   (is_valid_url c (normalize_url url)
      \<longrightarrow> normalize_url url \<in> set (visited (crawl_recursive c site url depth st)))
   \<and> (\<forall>u \<in> set (visited (crawl_recursive c site url depth st)) - set (visited st).
        set (links_of c site u) \<subseteq> set (visited (crawl_recursive c site url depth st)))"
  "int (length (visited (crawl_links c site links depth st))) < max_pages c \<Longrightarrow>
   depth + (int (length (visited (crawl_links c site links depth st))) - int (length (visited st)))
      \<le> max_depth c \<Longrightarrow>
   (\<forall>l \<in> set links. is_valid_url c (normalize_url l)
      \<longrightarrow> normalize_url l \<in> set (visited (crawl_links c site links depth st)))
   \<and> (\<forall>u \<in> set (visited (crawl_links c site links depth st)) - set (visited st).
        set (links_of c site u) \<subseteq> set (visited (crawl_links c site links depth st)))"
proof (induction c site url depth st and c site links depth st
    rule: crawl_recursive_crawl_links.induct)
  case (1 c site url depth st)
  let ?u = "normalize_url url"
  let ?r = "crawl_recursive c site url depth st"
  note B = 1(2) and D = 1(3)
  show ?case
  proof (cases "max_depth c < depth \<or> max_pages c \<le> int (length (visited st))
     \<or> ?u \<in> set (visited st) \<or> \<not> is_valid_url c ?u")
    case True
    then have r: "?r = st" by (simp add: crawl_recursive_skip)
    with B D have "\<not> max_depth c < depth" "\<not> max_pages c \<le> int (length (visited st))" by auto
    with True r show ?thesis by auto
  next
    case False
    show ?thesis
    proof (cases "site ?u = RequestFailed \<or> site ?u = NotHtml")
      case True
      with False have r: "?r = mark_visited st ?u" by (simp add: crawl_recursive_leaf)
      from True have "links_of c site ?u = []" by (auto simp: links_of_def)
      with r show ?thesis by auto
    next
      case nl: False
      then obtain t ct urls where pg: "site ?u = Page t ct urls" by (cases "site ?u") auto
      let ?st2 = "yield_page (mark_visited st ?u) ?u t ct"
      let ?ls = "extract_links c urls (visited (mark_visited st ?u))"
      from False pg have r: "?r = crawl_links c site ?ls (depth + 1) ?st2"
        by (simp add: crawl_recursive_page)
      have B': "int (length (visited (crawl_links c site ?ls (depth + 1) ?st2))) < max_pages c"
        using B r by simp
      have D': "depth + 1 + (int (length (visited (crawl_links c site ?ls (depth + 1) ?st2)))
          - int (length (visited ?st2))) \<le> max_depth c"
        using D r by simp
      from False pg have ih: "(\<forall>l \<in> set ?ls. is_valid_url c (normalize_url l)
            \<longrightarrow> normalize_url l \<in> set (visited ?r))
         \<and> (\<forall>u \<in> set (visited ?r) - set (visited ?st2).
              set (links_of c site u) \<subseteq> set (visited ?r))"
        using 1(1) [OF _ _ _ _ pg B' D'] r by simp
      have sub: "set (visited ?st2) \<subseteq> set (visited ?r)"
        unfolding r by (rule crawl_visited_subset)
      then have u_in: "?u \<in> set (visited ?r)" by auto
      have own: "set (links_of c site ?u) \<subseteq> set (visited ?r)"
      proof
        fix v assume v: "v \<in> set (links_of c site ?u)"
        show "v \<in> set (visited ?r)"
        proof (cases "v \<in> set (visited (mark_visited st ?u))")
          case True
          with sub show ?thesis by auto
        next
          case False
          with v have "v \<in> set ?ls" using extract_links_set [of site ?u t ct urls c "visited (mark_visited st ?u)"] pg by blast
          moreover have "normalize_url v = v" "is_valid_url c v"
            using links_of_normalized [OF v] by auto
          ultimately show ?thesis using ih by force
        qed
      qed
      have "set (links_of c site w) \<subseteq> set (visited ?r)"
        if "w \<in> set (visited ?r) - set (visited st)" for w
      proof (cases "w = ?u")
        case True
        with own show ?thesis by simp
      next
        case False
        with that have "w \<in> set (visited ?r) - set (visited ?st2)" by simp
        with ih show ?thesis by blast
      qed
      with u_in show ?thesis by blast
    qed
  qed
next
  case (2 c site depth st)
  then show ?case by simp
next
  case (3 c site link links depth st)
  let ?s1 = "crawl_recursive c site link depth st"
  let ?r = "crawl_links c site links depth ?s1"
  have r: "crawl_links c site (link # links) depth st = ?r" by simp
  note B = 3(3) [unfolded r] and D = 3(4) [unfolded r]
  have m1: "length (visited st) \<le> length (visited ?s1)" by (rule crawl_visited_length_mono)
  have m2: "length (visited ?s1) \<le> length (visited ?r)" by (rule crawl_visited_length_mono)
  have s2: "set (visited ?s1) \<subseteq> set (visited ?r)" by (rule crawl_visited_subset)
  have B1: "int (length (visited ?s1)) < max_pages c" using B m2 by simp
  have D1: "depth + (int (length (visited ?s1)) - int (length (visited st))) \<le> max_depth c"
    using D m2 by simp
  have D2: "depth + (int (length (visited ?r)) - int (length (visited ?s1))) \<le> max_depth c"
    using D m1 by simp
  note ih1 = 3(1) [OF B1 D1] and ih2 = 3(2) [OF B D2]
  have "set (links_of c site w) \<subseteq> set (visited ?r)"
    if "w \<in> set (visited ?r) - set (visited st)" for w
  proof (cases "w \<in> set (visited ?s1)")
    case True
    with that ih1 have "set (links_of c site w) \<subseteq> set (visited ?s1)" by blast
    with s2 show ?thesis by blast
  next
    case False
    with that ih2 show ?thesis by blast
  qed
  moreover have "\<forall>l \<in> set (link # links). is_valid_url c (normalize_url l)
      \<longrightarrow> normalize_url l \<in> set (visited ?r)"
    using ih1 ih2 s2 by auto
  ultimately show ?case unfolding r by blast
qed

lemma reachable_visited:
  assumes B: "int (length (visited (crawl c site))) < max_pages c"
    and D: "max_pages c \<le> max_depth c + 1"
  shows "reachable c site \<subseteq> set (visited (crawl c site))"
proof -
  let ?init = "\<lparr>visited = [], yielded = []\<rparr>"
  let ?r = "crawl_recursive c site (base_url c) 0 ?init"
  have B': "int (length (visited ?r)) < max_pages c" using B by (simp add: crawl_def)
  have D': "0 + (int (length (visited ?r)) - int (length (visited ?init))) \<le> max_depth c"
    using B' D by simp
  from crawl_closed(1) [OF B' D']
  have b: "is_valid_url c (normalize_url (base_url c)) \<longrightarrow> normalize_url (base_url c) \<in> set (visited ?r)"
    and cl: "\<forall>u \<in> set (visited ?r). set (links_of c site u) \<subseteq> set (visited ?r)" by auto
  have "v \<in> set (visited ?r)" if "v \<in> reachable c site" for v
    using that
  proof (induction rule: reachable.induct)
    case base
    with b show ?case by simp
  next
    case (link u v)
    with cl show ?case by blast
  qed
  then show ?thesis by (auto simp: crawl_def)
qed

lemma crawl_exhausts_budget:
  assumes D: "max_pages c \<le> max_depth c + 1"
    and R: "max_pages c \<le> int (card (reachable c site))"
  shows "int (length (visited (crawl c site))) = max 0 (max_pages c)"
proof -
  have ub: "int (length (visited (crawl c site))) \<le> max 0 (max_pages c)"
    using crawl_visited_bound(1) [of c site "base_url c" 0 "\<lparr>visited = [], yielded = []\<rparr>"]
    by (simp add: crawl_def)
  show ?thesis
  proof (rule ccontr)
    assume "int (length (visited (crawl c site))) \<noteq> max 0 (max_pages c)"
    with ub have lt: "int (length (visited (crawl c site))) < max_pages c" by auto
    from reachable_visited [OF lt D]
    have sub: "reachable c site \<subseteq> set (visited (crawl c site))" .
    then have "card (reachable c site) \<le> card (set (visited (crawl c site)))"
      by (intro card_mono) auto
    also have "\<dots> \<le> length (visited (crawl c site))" by (rule card_length)
    finally show False using lt R by simp
  qed
qed


lemma example_base: "normalize_url (base_url example_crawler) = ''https://ex.com/docs''"
  "is_valid_url example_crawler ''https://ex.com/docs''"
  by code_simp+

lemma example_links_base:
  "links_of example_crawler example_site ''https://ex.com/docs'' = example_pages"
  by code_simp

lemma example_links_pages:
  "\<forall>u \<in> set example_pages. links_of example_crawler example_site u = [''https://ex.com/docs'']"
  by code_simp

lemma example_reachable:
  "reachable example_crawler example_site = set (''https://ex.com/docs'' # example_pages)"
proof
  show "reachable example_crawler example_site \<subseteq> set (''https://ex.com/docs'' # example_pages)"
  proof
    fix v assume "v \<in> reachable example_crawler example_site"
    then show "v \<in> set (''https://ex.com/docs'' # example_pages)"
    proof (induction rule: reachable.induct)
      case base
      then show ?case by (simp add: example_base)
    next
      case (link u v)
      then show ?case using example_links_base example_links_pages by auto
    qed
  qed
  have b: "''https://ex.com/docs'' \<in> reachable example_crawler example_site"
    using reachable.base [of example_crawler example_site] example_base by simp
  then have "v \<in> reachable example_crawler example_site" if "v \<in> set example_pages" for v
    using that example_links_base reachable.link [OF b, of v] by simp
  with b show "set (''https://ex.com/docs'' # example_pages) \<subseteq> reachable example_crawler example_site"
    by auto
qed

lemma example_card: "card (reachable example_crawler example_site) = 10"
  unfolding example_reachable by (simp add: example_pages_def)

lemma example_crawl: "visited (crawl example_crawler example_site) =
    [''https://ex.com/docs'', ''https://ex.com/docs/1'', ''https://ex.com/docs/2'']"
  by code_simp


lemma example_scope_crawler:
  "new_crawler ''https://ex.com/docs'' 500 5 =
     Some \<lparr>base_url = ''https://ex.com/docs'', max_pages = 500, max_depth = 5,
            base_domain = ''ex.com'', base_path_prefix = ''/docs''\<rparr>"
  by code_simp

lemma example_scope_in:
  "is_valid_url \<lparr>base_url = ''https://ex.com/docs'', max_pages = 500, max_depth = 5,
            base_domain = ''ex.com'', base_path_prefix = ''/docs''\<rparr> ''https://ex.com/docs/a''"
  by code_simp

lemma example_scope_out:
  "\<not> is_valid_url \<lparr>base_url = ''https://ex.com/docs'', max_pages = 500, max_depth = 5,
            base_domain = ''ex.com'', base_path_prefix = ''/docs''\<rparr> ''https://ex.com/blog''"
  "\<not> is_valid_url \<lparr>base_url = ''https://ex.com/docs'', max_pages = 500, max_depth = 5,
            base_domain = ''ex.com'', base_path_prefix = ''/docs''\<rparr> ''https://other.com/docs''"
  "\<not> is_valid_url \<lparr>base_url = ''https://ex.com/docs'', max_pages = 500, max_depth = 5,
            base_domain = ''ex.com'', base_path_prefix = ''/docs''\<rparr> ''https://ex.com/docs/file.pdf''"
  by code_simp+


lemma example_same_host:
  "urlparse ''https://ex.com:443/docs/a'' =
     Some \<lparr>scheme = ''https'', netloc = ''ex.com:443'', path = ''/docs/a''\<rparr>"
  "urlparse ''https://ex.com/docs'' =
     Some \<lparr>scheme = ''https'', netloc = ''ex.com'', path = ''/docs''\<rparr>"
  "hostname ''ex.com:443'' = hostname ''ex.com''"
  "prefix (path_or_root ''/docs'') (path_or_root ''/docs/a'')"
  "\<not> list_ex (\<lambda>ext. suffix ext (lower (path_or_root ''/docs/a''))) skip_extensions"
  "\<not> is_valid_url \<lparr>base_url = ''https://ex.com/docs'', max_pages = 500, max_depth = 5,
            base_domain = ''ex.com'', base_path_prefix = ''/docs''\<rparr> ''https://ex.com:443/docs/a''"
  by code_simp+

lemma example_query_extension:
  "\<not> list_ex (\<lambda>ext. suffix ext (lower ''https://ex.com/docs/file.pdf?x=1'')) skip_extensions"
  "\<not> is_valid_url \<lparr>base_url = ''https://ex.com/docs'', max_pages = 500, max_depth = 5,
            base_domain = ''ex.com'', base_path_prefix = ''/docs''\<rparr> ''https://ex.com/docs/file.pdf?x=1''"
  "list_ex (\<lambda>ext. suffix ext (lower ''https://ex.com/docs/a?f=x.pdf'')) skip_extensions"
  "is_valid_url \<lparr>base_url = ''https://ex.com/docs'', max_pages = 500, max_depth = 5,
            base_domain = ''ex.com'', base_path_prefix = ''/docs''\<rparr> ''https://ex.com/docs/a?f=x.pdf''"
  by code_simp+

section \<open>Repository fetcher: properties\<close>

declare fetch_directory.simps [simp del]

lemma process_file_inv:
  assumes "fetch_inv g repo st" "fetched_count st < max_files g" "f \<in> repo_files repo"
  shows "fetch_inv g repo (process_file f ftype st)"
proof (cases "process_file f ftype st = st")
  case True
  with assms(1) show ?thesis by simp
next
  case False
  then obtain decoded where d: "cf_decoded f = Some decoded" "cf_size f \<le> 500000"
    and p: "process_file f ftype st =
      \<lparr>fetched_count = fetched_count st + 1,
       fetched = fetched st @ [\<lparr>gf_path = cf_path f, gf_content = decoded,
          gf_url = cf_html_url f, gf_file_type = ftype\<rparr>]\<rparr>"
    by (auto simp: process_file_def split: if_splits option.splits)
  show ?thesis
    unfolding p fetch_inv_def using assms d by (auto simp: fetch_inv_def)
qed

lemma fetch_directory_inv:
  "fetch_inv g repo st \<Longrightarrow> fetch_inv g repo (fetch_directory g repo dir ftype depth st)"
  "fetch_inv g repo st \<Longrightarrow> set items \<subseteq> repo_files repo
     \<Longrightarrow> fetch_inv g repo (fetch_items g repo items ftype depth st)"
proof (induction g repo dir ftype depth st and g repo items ftype depth st
    rule: fetch_directory_fetch_items.induct)
  case (1 g repo dir ftype depth st)
  show ?case
  proof (cases "depth > 4 \<or> fetched_count st \<ge> max_files g")
    case True
    with 1(3) show ?thesis by (subst fetch_directory.simps) simp
  next
    case False
    show ?thesis
    proof (cases "repo dir")
      case GithubException
      with False 1(3) show ?thesis by (subst fetch_directory.simps) simp
    next
      case (Single item)
      then have "set [item] \<subseteq> repo_files repo" by (auto simp: repo_files_def)
      with False Single 1(1) 1(3) show ?thesis by (subst fetch_directory.simps) simp
    next
      case (Listing its)
      then have "set its \<subseteq> repo_files repo" by (auto simp: repo_files_def)
      with False Listing 1(2) 1(3) show ?thesis by (subst fetch_directory.simps) simp
    qed
  qed
next
  case (2 g repo ftype depth st)
  then show ?case by simp
next
  case (3 g repo item items ftype depth st)
  show ?case
  proof (cases "fetched_count st \<ge> max_files g")
    case True
    with 3(3) show ?thesis by simp
  next
    case False
    let ?st1 = "if cf_type item = ''dir'' then fetch_directory g repo (cf_path item) ftype (depth + 1) st
         else if cf_type item = ''file'' then process_file item ftype st else st"
    have "fetch_inv g repo ?st1"
      using False 3(1) 3(3) 3(4) process_file_inv [of g repo st item ftype] by auto
    moreover have "set items \<subseteq> repo_files repo" using 3(4) by simp
    ultimately have "fetch_inv g repo (fetch_items g repo items ftype depth ?st1)"
      using False 3(2) by simp
    with False show ?thesis by simp
  qed
qed

lemma fetch_priority_inv:
  "fetch_inv g repo st \<Longrightarrow> fetch_inv g repo (fetch_priority g repo files st)"
proof (induction files arbitrary: st)
  case Nil
  then show ?case by simp
next
  case (Cons file_path rest)
  show ?case
  proof (cases "fetched_count st \<ge> max_files g")
    case True
    with Cons.prems show ?thesis by simp
  next
    case False
    have "fetch_inv g repo (case repo file_path of Single item \<Rightarrow> process_file item ''readme'' st | _ \<Rightarrow> st)"
      using False Cons.prems process_file_inv [of g repo st _ "''readme''"]
      by (auto simp: repo_files_def split: contents.splits)
    with False Cons.IH show ?thesis by simp
  qed
qed

lemma fetch_dirs_inv:
  "fetch_inv g repo st \<Longrightarrow> fetch_inv g repo (fetch_dirs g repo ftype_of dirs st)"
  by (induction dirs arbitrary: st) (auto simp: fetch_directory_inv)

lemma fetch_inv_final:
  "fetch_inv g repo (fetch_dirs g repo (\<lambda>d. ''docs'') DOC_DIRS
      (fetch_dirs g repo get_file_type OPERATOR_DIRS
        (fetch_priority g repo PRIORITY_FILES \<lparr>fetched_count = 0, fetched = []\<rparr>)))"
  by (intro fetch_dirs_inv fetch_priority_inv) (simp add: fetch_inv_def)

lemma example_fetch:
  "map gf_path (fetch \<lparr>owner = ''acme'', repo_name = ''op'', max_files = 3\<rparr> (Some example_repo))
     = [''README.md'', ''api/types.go'', ''api/v1/spec.yaml'']"
  by code_simp

section \<open>Indexing orchestrator: properties\<close>

lemma find_update_other:
  "sid' \<noteq> sid \<Longrightarrow> (\<And>r. ks_id (f r) = ks_id r) \<Longrightarrow>
   find (\<lambda>r. ks_id r = sid') (update_rows sid f rows) = find (\<lambda>r. ks_id r = sid') rows"
  by (induction rows) (auto simp: update_rows_def)

lemma find_update_same:
  "(\<And>r. ks_id (f r) = ks_id r) \<Longrightarrow>
   find (\<lambda>r. ks_id r = sid) (update_rows sid f rows) = map_option f (find (\<lambda>r. ks_id r = sid) rows)"
  by (induction rows) (auto simp: update_rows_def)

lemma update_rows_twice:
  "(\<And>r. ks_id (f r) = ks_id r) \<Longrightarrow>
   update_rows sid g (update_rows sid f rows) = update_rows sid (\<lambda>r. g (f r)) rows"
  by (simp add: update_rows_def)

lemma update_rows_ids: "(\<And>r. ks_id (f r) = ks_id r) \<Longrightarrow> map ks_id (update_rows sid f rows) = map ks_id rows"
  by (simp add: update_rows_def)

lemma find_distinct:
  "distinct (map ks_id rows) \<Longrightarrow> s \<in> set rows \<Longrightarrow> find (\<lambda>r. ks_id r = ks_id s) rows = Some s"
  by (induction rows) (auto simp: image_iff)

lemma try_index_Inr:
  assumes "session db = committed db" "try_index w db s = Inr db'"
  shows "db' = db\<lparr>committed := update_rows (ks_id s)
                (\<lambda>r. r\<lparr>status := INDEXED, last_indexed_at := Some (utcnow w)\<rparr>) (committed db),
              session := update_rows (ks_id s)
                (\<lambda>r. r\<lparr>status := INDEXED, last_indexed_at := Some (utcnow w)\<rparr>) (committed db)\<rparr>"
proof -
  from assms(2) have c1: "commit_error w (ks_id s) INDEXING = None"
    by (auto simp: try_index_def db_commit_def Let_def split: option.splits)
  from assms(2) c1 obtain chunks where c2: "fetch_chunks w s = Inr chunks"
    by (cases "fetch_chunks w s") (auto simp: try_index_def db_commit_def Let_def)
  from assms(2) c1 c2 have c3: "embed_and_store w chunks = None"
    by (cases "embed_and_store w chunks") (auto simp: try_index_def db_commit_def Let_def)
  from assms(2) c1 c2 c3 have c4: "commit_error w (ks_id s) INDEXED = None"
    by (cases "commit_error w (ks_id s) INDEXED") (auto simp: try_index_def db_commit_def Let_def)
  from assms c1 c2 c3 c4 show ?thesis
    by (auto simp: try_index_def db_commit_def update_source_def update_rows_twice Let_def)
qed

lemma try_index_Inl:
  assumes "session db = committed db" "try_index w db s = Inl (e, dbx)"
  shows "channels dbx = channels db
     \<and> (committed dbx = committed db
         \<or> committed dbx = update_rows (ks_id s) (\<lambda>r. r\<lparr>status := INDEXING\<rparr>) (committed db))"
proof (cases "commit_error w (ks_id s) INDEXING")
  case (Some e1)
  with assms show ?thesis
    by (auto simp: try_index_def db_commit_def update_source_def Let_def)
next
  case None
  note c1 = None
  show ?thesis
  proof (cases "fetch_chunks w s")
    case (Inl e2)
    with assms c1 show ?thesis
      by (auto simp: try_index_def db_commit_def update_source_def Let_def)
  next
    case (Inr chunks)
    note c2 = Inr
    show ?thesis
    proof (cases "embed_and_store w chunks")
      case (Some e3)
      with assms c1 c2 show ?thesis
        by (auto simp: try_index_def db_commit_def update_source_def Let_def)
    next
      case None
      with assms c1 c2 show ?thesis
        by (cases "commit_error w (ks_id s) INDEXED")
          (auto simp: try_index_def db_commit_def update_source_def Let_def)
    qed
  qed
qed

lemma record_failure_ok:
  assumes "refresh_error w (ks_id s) = None" "commit_error w (ks_id s) FAILED = None"
  shows "record_failure w dbx s e =
     dbx\<lparr>committed := update_rows (ks_id s)
              (\<lambda>r. r\<lparr>status := FAILED, error_message := Some (take 500 e)\<rparr>) (committed dbx),
          session := update_rows (ks_id s)
              (\<lambda>r. r\<lparr>status := FAILED, error_message := Some (take 500 e)\<rparr>) (committed dbx)\<rparr>"
  using assms
  by (simp add: record_failure_def db_commit_def db_rollback_def update_source_def Let_def)

lemma record_failure_gives_up:
  assumes "refresh_error w (ks_id s) \<noteq> None \<or> commit_error w (ks_id s) FAILED \<noteq> None"
  shows "record_failure w dbx s e = dbx\<lparr>session := committed dbx\<rparr>"
  using assms
  by (auto simp: record_failure_def db_commit_def db_rollback_def update_source_def Let_def
      split: option.splits)

text \<open>The ways \<open>index_source\<close> can end, as one characterisation.\<close>

lemma index_source_outcome:
  assumes "session db = committed db"
  shows "\<exists>f. (\<forall>r. ks_id (f r) = ks_id r \<and> channel_id (f r) = channel_id r)
     \<and> index_source w db s = db\<lparr>committed := update_rows (ks_id s) f (committed db),
                                   session := update_rows (ks_id s) f (committed db)\<rparr>
     \<and> (refresh_error w (ks_id s) = None \<and> commit_error w (ks_id s) FAILED = None
          \<longrightarrow> (\<forall>r. status (f r) = INDEXED \<or> status (f r) = FAILED))"
proof (cases "try_index w db s")
  case (Inr db')
  let ?ed = "\<lambda>r. r\<lparr>status := INDEXED, last_indexed_at := Some (utcnow w)\<rparr>"
  from try_index_Inr [OF assms Inr] Inr
  have "index_source w db s = db\<lparr>committed := update_rows (ks_id s) ?ed (committed db),
      session := update_rows (ks_id s) ?ed (committed db)\<rparr>"
    by (simp add: index_source_def)
  then show ?thesis by (intro exI [of _ ?ed]) simp
next
  case (Inl x)
  obtain e dbx where x: "x = (e, dbx)" by (cases x)
  let ?ing = "\<lambda>r. r\<lparr>status := INDEXING\<rparr>"
  let ?fail = "\<lambda>r. r\<lparr>status := FAILED, error_message := Some (take 500 e)\<rparr>"
  from try_index_Inl [OF assms Inl [unfolded x]]
  have ch: "channels dbx = channels db"
    and cm: "committed dbx = committed db \<or> committed dbx = update_rows (ks_id s) ?ing (committed db)"
    by auto
  have eq: "dbx\<lparr>committed := R, session := R\<rparr> = db\<lparr>committed := R, session := R\<rparr>" for R
    using ch by simp
  have r: "index_source w db s = record_failure w dbx s e"
    using Inl x by (simp add: index_source_def)
  show ?thesis
  proof (cases "refresh_error w (ks_id s) = None \<and> commit_error w (ks_id s) FAILED = None")
    case True
    then have rf: "index_source w db s =
      dbx\<lparr>committed := update_rows (ks_id s) ?fail (committed dbx),
          session := update_rows (ks_id s) ?fail (committed dbx)\<rparr>"
      using r record_failure_ok [of w s dbx e] by simp
    from cm show ?thesis
    proof
      assume "committed dbx = committed db"
      with rf eq have "index_source w db s = db\<lparr>committed := update_rows (ks_id s) ?fail (committed db),
          session := update_rows (ks_id s) ?fail (committed db)\<rparr>" by simp
      then show ?thesis by (intro exI [of _ ?fail]) simp
    next
      assume "committed dbx = update_rows (ks_id s) ?ing (committed db)"
      with rf eq have "index_source w db s =
          db\<lparr>committed := update_rows (ks_id s) (\<lambda>r. ?fail (?ing r)) (committed db),
              session := update_rows (ks_id s) (\<lambda>r. ?fail (?ing r)) (committed db)\<rparr>"
        by (simp add: update_rows_twice)
      then show ?thesis by (intro exI [of _ "\<lambda>r. ?fail (?ing r)"]) simp
    qed
  next
    case False
    then have rf: "index_source w db s = dbx\<lparr>session := committed dbx\<rparr>"
      using r record_failure_gives_up [of w s dbx e] by auto
    have eq2: "dbx\<lparr>session := committed dbx\<rparr> = db\<lparr>committed := committed dbx, session := committed dbx\<rparr>"
      using eq [of "committed dbx"] by simp
    from cm show ?thesis
    proof
      assume a: "committed dbx = committed db"
      have "update_rows (ks_id s) (\<lambda>r. r) (committed db) = committed db"
        by (simp add: update_rows_def)
      with rf eq2 a have "index_source w db s = db\<lparr>committed := update_rows (ks_id s) (\<lambda>r. r) (committed db),
          session := update_rows (ks_id s) (\<lambda>r. r) (committed db)\<rparr>" by simp
      then show ?thesis using False by (intro exI [of _ "\<lambda>r. r"]) auto
    next
      assume a: "committed dbx = update_rows (ks_id s) ?ing (committed db)"
      with rf eq2 have "index_source w db s = db\<lparr>committed := update_rows (ks_id s) ?ing (committed db),
          session := update_rows (ks_id s) ?ing (committed db)\<rparr>" by simp
      then show ?thesis using False by (intro exI [of _ ?ing]) auto
    qed
  qed
qed


lemma index_source_settled:
  assumes "session db = committed db"
  shows "session (index_source w db s) = committed (index_source w db s)"
  using index_source_outcome [OF assms, of w s] by auto

lemma index_source_channels:
  assumes "session db = committed db"
  shows "channels (index_source w db s) = channels db"
  using index_source_outcome [OF assms, of w s] by auto

lemma index_source_other:
  assumes "session db = committed db" "sid \<noteq> ks_id s"
  shows "stored (index_source w db s) sid = stored db sid"
proof -
  from index_source_outcome [OF assms(1), of w s] obtain f
    where f: "\<And>r. ks_id (f r) = ks_id r"
      and r: "index_source w db s = db\<lparr>committed := update_rows (ks_id s) f (committed db),
                                   session := update_rows (ks_id s) f (committed db)\<rparr>"
    by auto
  show ?thesis unfolding stored_def r using find_update_other [OF assms(2), of f "committed db"] f
    by simp
qed

lemma index_source_own:
  assumes "session db = committed db" "stored db (ks_id s) = Some r0"
    and "refresh_error w (ks_id s) = None" "commit_error w (ks_id s) FAILED = None"
  shows "\<exists>r. stored (index_source w db s) (ks_id s) = Some r
     \<and> (status r = INDEXED \<or> status r = FAILED)"
proof -
  from index_source_outcome [OF assms(1), of w s] assms(3,4) obtain f
    where f: "\<And>r. ks_id (f r) = ks_id r"
      and r: "index_source w db s = db\<lparr>committed := update_rows (ks_id s) f (committed db),
                                   session := update_rows (ks_id s) f (committed db)\<rparr>"
      and st: "\<And>r. status (f r) = INDEXED \<or> status (f r) = FAILED"
    by auto
  have "stored (index_source w db s) (ks_id s) = Some (f r0)"
    unfolding stored_def r using find_update_same [of f "ks_id s" "committed db"] f assms(2)
    by (simp add: stored_def)
  with st show ?thesis by blast
qed

lemma index_sources_settled:
  "session db = committed db \<Longrightarrow> session (index_sources w db ss) = committed (index_sources w db ss)"
  by (induction ss arbitrary: db) (auto simp: index_source_settled)

lemma index_sources_other:
  "session db = committed db \<Longrightarrow> sid \<notin> ks_id ` set ss
     \<Longrightarrow> stored (index_sources w db ss) sid = stored db sid"
  by (induction ss arbitrary: db) (auto simp: index_source_settled index_source_other)

lemma index_sources_status:
  assumes "session db = committed db" "distinct (map ks_id ss)" "s \<in> set ss"
    and "stored db (ks_id s) \<noteq> None"
    and "refresh_error w (ks_id s) = None" "commit_error w (ks_id s) FAILED = None"
  shows "\<exists>r. stored (index_sources w db ss) (ks_id s) = Some r
     \<and> (status r = INDEXED \<or> status r = FAILED)"
  using assms(1-4)
proof (induction ss arbitrary: db)
  case Nil
  then show ?case by simp
next
  case (Cons s' ss)
  let ?db1 = "index_source w db s'"
  have st1: "session ?db1 = committed ?db1" using Cons.prems(1) by (rule index_source_settled)
  show ?case
  proof (cases "ks_id s' = ks_id s")
    case True
    from Cons.prems(4) obtain r0 where "stored db (ks_id s') = Some r0" using True by auto
    from index_source_own [OF Cons.prems(1) this] assms(5,6) True
    obtain r where r: "stored ?db1 (ks_id s) = Some r" "status r = INDEXED \<or> status r = FAILED"
      by auto
    have "ks_id s \<notin> ks_id ` set ss" using Cons.prems(2) True by auto
    from index_sources_other [OF st1 this] r show ?thesis by simp
  next
    case False
    with Cons.prems(3) have in_ss: "s \<in> set ss" by auto
    have "stored ?db1 (ks_id s) = stored db (ks_id s)"
      using index_source_other [OF Cons.prems(1), of "ks_id s" s' w] False by simp
    with Cons.prems(4) have "stored ?db1 (ks_id s) \<noteq> None" by simp
    from Cons.IH [OF st1 _ in_ss this] Cons.prems(2) show ?thesis by simp
  qed
qed

lemma pending_stored:
  assumes "settled db" "s \<in> set (pending_sources db cid)"
  shows "stored db (ks_id s) = Some s" "distinct (map ks_id (pending_sources db cid))"
proof -
  from assms have "s \<in> set (committed db)" "distinct (map ks_id (committed db))"
    by (auto simp: settled_def pending_sources_def)
  then show "stored db (ks_id s) = Some s" unfolding stored_def by (intro find_distinct)
  show "distinct (map ks_id (pending_sources db cid))"
    using assms(1) by (auto simp: settled_def pending_sources_def distinct_map_filter)
qed








section \<open>Chunker: the claims\<close>

text \<open>
  Claim C1, as stated: every chunk of \<open>chunk_text\<close> has at most \<open>chunk_size\<close>
  characters unless it is a single sentence that alone exceeds \<open>chunk_size\<close>. The
  size test of the paragraph loop compares the lengths of the buffer and of the next
  paragraph only; the buffer that follows a flush is then seeded with the overlap, a
  blank line and the whole paragraph. With the default chunker a paragraph of 600
  characters followed by one of 900 (two sentences) gives a second chunk of 1102
  characters, which holds a sentence terminator and so is not a single sentence.
\<close>

theorem chunk_text_exceeds_chunk_size:
  "\<exists>ch \<in> set (chunk_text default_chunker
       (replicate 600 CHR ''a'' @ CHR 0x0A # CHR 0x0A
          # (replicate 450 CHR ''b'' @ ''. '' @ replicate 448 CHR ''b'')) ([] :: string metadata)).
     int (length (content ch)) = chunk_size default_chunker + 102 \<and> contains ''. '' (content ch)"
proof -
  let ?a = "replicate 600 CHR ''a''"
  let ?b = "replicate 450 CHR ''b'' @ ''. '' @ replicate 448 CHR ''b''"
  let ?o = "drop (length ?a - nat (chunk_overlap default_chunker)) ?a"
  have "chunk_text default_chunker (?a @ CHR 0x0A # CHR 0x0A # ?b) ([] :: string metadata) =
     [\<lparr>content = ?a, metadata = []\<rparr>,
      \<lparr>content = ?o @ CHR 0x0A # CHR 0x0A # ?b, metadata = []\<rparr>]"
    by (rule chunk_text_two_overlap) (simp_all add: isspace_def default_chunker_def)
  moreover have "sublist ''. '' ((?o @ CHR 0x0A # CHR 0x0A # replicate 450 CHR ''b'') @ ''. ''
      @ replicate 448 CHR ''b'')"
    by (rule sublist_appendI)
  then have "contains ''. '' (?o @ CHR 0x0A # CHR 0x0A # ?b)"
    by (simp add: contains_sublist)
  moreover have "int (length (?o @ CHR 0x0A # CHR 0x0A # ?b)) = chunk_size default_chunker + 102"
    by (simp add: default_chunker_def)
  ultimately show ?thesis by simp
qed


text \<open>
  Claim C1, amended: with a positive \<open>chunk_overlap\<close>, every chunk of \<open>chunk_text\<close>
  has at most \<open>chunk_size + chunk_overlap + 2\<close> characters (the overlap seed and the
  blank-line separator are not counted by the size test), unless it is a single sentence
  (no sentence terminator and no line break inside) that alone exceeds \<open>chunk_size\<close>.
\<close>

theorem chunk_text_length_bound:
  assumes "0 < chunk_overlap c"
  shows "\<forall>ch \<in> set (chunk_text c txt md).
     int (length (content ch)) \<le> chunk_size c + chunk_overlap c + 2
     \<or> (chunk_size c < int (length (content ch))
         \<and> \<not> contains ''. '' (content ch) \<and> CHR 0x0A \<notin> set (content ch))"
proof
  fix ch assume "ch \<in> set (chunk_text c txt md)"
  then have "ch \<in> set (chunk_loop c md [] (split [CHR 0x0A, CHR 0x0A] (strip txt)))"
    by (auto simp: chunk_text_def Let_def split: if_splits)
  then have "size_ok c (content ch)" using assms chunk_loop_bound by blast
  then show "int (length (content ch)) \<le> chunk_size c + chunk_overlap c + 2
     \<or> (chunk_size c < int (length (content ch))
         \<and> \<not> contains ''. '' (content ch) \<and> CHR 0x0A \<notin> set (content ch))"
    by (simp add: size_ok_def one_sentence_def)
qed

theorem chunk_text_length_bound_witness:
  "0 < chunk_overlap \<lparr>chunk_size = 10, chunk_overlap = 3\<rparr>
   \<and> map content (chunk_text \<lparr>chunk_size = 10, chunk_overlap = 3\<rparr>
        (''aaaa bbbb'' @ [CHR 0x0A, CHR 0x0A] @ ''cccccc'' @ [CHR 0x0A, CHR 0x0A]
           @ ''dd. eeeeeeeeeeeeeeeeeeee'') ([] :: string metadata))
      = [''aaaa bbbb'', ''bbb'' @ [CHR 0x0A, CHR 0x0A] @ ''cccccc'', ''dd.'', ''eeeeeeeeeeeeeeeeeeee'']
   \<and> list_all (\<lambda>ch. int (length (content ch)) \<le> 10 + 3 + 2
          \<or> (10 < int (length (content ch))
              \<and> \<not> contains ''. '' (content ch) \<and> CHR 0x0A \<notin> set (content ch)))
        (chunk_text \<lparr>chunk_size = 10, chunk_overlap = 3\<rparr>
          (''aaaa bbbb'' @ [CHR 0x0A, CHR 0x0A] @ ''cccccc'' @ [CHR 0x0A, CHR 0x0A]
             @ ''dd. eeeeeeeeeeeeeeeeeeee'') ([] :: string metadata))"
proof -
  have "map content (chunk_text \<lparr>chunk_size = 10, chunk_overlap = 3\<rparr>
        (''aaaa bbbb'' @ [CHR 0x0A, CHR 0x0A] @ ''cccccc'' @ [CHR 0x0A, CHR 0x0A]
           @ ''dd. eeeeeeeeeeeeeeeeeeee'') ([] :: string metadata))
      = [''aaaa bbbb'', ''bbb'' @ [CHR 0x0A, CHR 0x0A] @ ''cccccc'', ''dd.'', ''eeeeeeeeeeeeeeeeeeee'']"
    by code_simp
  then show ?thesis
    using chunk_text_length_bound [of "\<lparr>chunk_size = 10, chunk_overlap = 3\<rparr>"
      "''aaaa bbbb'' @ [CHR 0x0A, CHR 0x0A] @ ''cccccc'' @ [CHR 0x0A, CHR 0x0A] @ ''dd. eeeeeeeeeeeeeeeeeeee''"
      "[] :: string metadata"]
    by (simp add: list_all_iff)
qed

text \<open>
  Claim C7, as stated: a non-blank string shorter than \<open>chunk_size\<close> yields exactly one
  chunk, equal to the trimmed input. Each paragraph is stripped before it is joined
  again, so white space next to a paragraph break is lost: the one chunk of
  \<open>"a \n\nb"\<close> is \<open>"a\n\nb"\<close>.
\<close>

theorem chunk_text_small_not_trimmed_input:
  "strip (''a '' @ [CHR 0x0A, CHR 0x0A] @ ''b'') = ''a '' @ [CHR 0x0A, CHR 0x0A] @ ''b''
   \<and> int (length (''a '' @ [CHR 0x0A, CHR 0x0A] @ ''b'')) < chunk_size default_chunker
   \<and> map content (chunk_text default_chunker (''a '' @ [CHR 0x0A, CHR 0x0A] @ ''b'')
        ([] :: string metadata)) = [''a'' @ [CHR 0x0A, CHR 0x0A] @ ''b'']
   \<and> ''a'' @ [CHR 0x0A, CHR 0x0A] @ ''b'' \<noteq> strip (''a '' @ [CHR 0x0A, CHR 0x0A] @ ''b'')"
  by (simp add: chunk_text_def strip_def isspace_def default_chunker_def chunk_step_def
      flush_def Let_def)

text \<open>
  Claim C7, amended: a non-blank string shorter than \<open>chunk_size\<close> yields exactly one
  chunk; its content is the non-blank paragraphs of the trimmed input, each stripped,
  joined by blank lines, and it is the trimmed input itself whenever the trimmed input
  holds no paragraph break.
\<close>

theorem chunk_text_small_single_chunk:
  assumes "strip txt \<noteq> []" and "int (length txt) < chunk_size c"
  shows "chunk_text c txt md =
       [\<lparr>content = join [CHR 0x0A, CHR 0x0A] (paragraphs (strip txt)), metadata = md\<rparr>]
     \<and> (\<not> contains [CHR 0x0A, CHR 0x0A] (strip txt) \<longrightarrow>
          chunk_text c txt md = [\<lparr>content = strip txt, metadata = md\<rparr>])"
proof -
  have "int (length (strip txt)) \<le> chunk_size c"
    using assms(2) strip_length [of "txt"] by simp
  then have one: "chunk_text c txt md =
       [\<lparr>content = join [CHR 0x0A, CHR 0x0A] (paragraphs (strip txt)), metadata = md\<rparr>]"
    using assms(1) by (rule chunk_text_small [rotated])
  moreover have "paragraphs (strip txt) = [strip txt]"
    if "\<not> contains [CHR 0x0A, CHR 0x0A] (strip txt)"
    using that assms(1) by (intro paragraphs_single) (simp_all add: strip_idem)
  ultimately show ?thesis by simp
qed

theorem chunk_text_small_single_chunk_witness:
  "strip ''  how to  deploy? '' \<noteq> []
   \<and> int (length ''  how to  deploy? '') < chunk_size default_chunker
   \<and> \<not> contains [CHR 0x0A, CHR 0x0A] (strip ''  how to  deploy? '')
   \<and> chunk_text default_chunker ''  how to  deploy? '' [(''url'', ''u'')] =
       [\<lparr>content = ''how to  deploy?'', metadata = [(''url'', ''u'')]\<rparr>]"
proof -
  have s: "strip ''  how to  deploy? '' = ''how to  deploy?''"
    by (simp add: strip_def isspace_def)
  have "strip ''  how to  deploy? '' \<noteq> []" and "\<not> contains [CHR 0x0A, CHR 0x0A] (strip ''  how to  deploy? '')"
    and "int (length ''  how to  deploy? '') < chunk_size default_chunker"
    unfolding s by (simp_all add: default_chunker_def)
  note h = this
  from chunk_text_small_single_chunk [OF h(1) h(3), of "[(''url'', ''u'')]"]
  have "\<not> contains [CHR 0x0A, CHR 0x0A] (strip ''  how to  deploy? '') \<longrightarrow>
      chunk_text default_chunker ''  how to  deploy? '' [(''url'', ''u'')] =
       [\<lparr>content = strip ''  how to  deploy? '', metadata = [(''url'', ''u'')]\<rparr>]"
    by (rule conjunct2)
  with h show ?thesis unfolding s by simp
qed

text \<open>
  Claim C8, as stated: whenever a paragraph that fits \<open>chunk_size\<close> would overflow the
  buffer, the new buffer starts with the trailing \<open>chunk_overlap\<close> characters of the
  flushed buffer. The overlap is taken only from a buffer longer than \<open>chunk_overlap\<close>:
  with the default chunker a buffer of 150 characters followed by a paragraph of 900 is
  flushed and the new buffer is the paragraph alone, so the two chunks share nothing.
\<close>

theorem chunk_step_short_buffer_no_overlap:
  "int (length (replicate 150 CHR ''a'')) + int (length (replicate 900 CHR ''b''))
      > chunk_size default_chunker
   \<and> int (length (replicate 900 CHR ''b'')) \<le> chunk_size default_chunker
   \<and> snd (chunk_step default_chunker ([] :: string metadata)
        (replicate 150 CHR ''a'') (replicate 900 CHR ''b'')) = replicate 900 CHR ''b''
   \<and> map content (chunk_text default_chunker
        (replicate 150 CHR ''a'' @ CHR 0x0A # CHR 0x0A # replicate 900 CHR ''b'')
        ([] :: string metadata))
      = [replicate 150 CHR ''a'', replicate 900 CHR ''b'']"
proof -
  have "chunk_text default_chunker
      (replicate 150 CHR ''a'' @ CHR 0x0A # CHR 0x0A # replicate 900 CHR ''b'')
      ([] :: string metadata) =
     [\<lparr>content = replicate 150 CHR ''a'', metadata = []\<rparr>,
      \<lparr>content = replicate 900 CHR ''b'', metadata = []\<rparr>]"
    by (rule chunk_text_two_apart) (simp_all add: isspace_def default_chunker_def)
  then show ?thesis
    by (simp add: chunk_step_def overlap_of_def default_chunker_def)
qed

text \<open>
  Claim C8, amended: whenever appending the next paragraph would exceed \<open>chunk_size\<close>
  and the paragraph itself does not, the buffer is flushed; for a positive
  \<open>chunk_overlap\<close>, the new buffer is the trailing \<open>chunk_overlap\<close> characters of the
  flushed buffer, a blank line and the paragraph when the flushed buffer is longer than
  \<open>chunk_overlap\<close>, and the paragraph alone otherwise.
\<close>

theorem chunk_step_overlap:
  assumes "int (length cur) + int (length par) > chunk_size c"
    and "int (length par) \<le> chunk_size c"
    and "0 < chunk_overlap c"
  shows "chunk_step c md cur par =
     (flush md cur,
      if int (length cur) > chunk_overlap c
      then drop (length cur - nat (chunk_overlap c)) cur @ [CHR 0x0A, CHR 0x0A] @ par
      else par)"
proof (cases "int (length cur) > chunk_overlap c")
  case True
  then have "overlap_of c cur = drop (length cur - nat (chunk_overlap c)) cur"
    using assms(3) by (simp add: overlap_of_def slice_from_def Let_def nat_diff_distrib')
  moreover have "drop (length cur - nat (chunk_overlap c)) cur \<noteq> []"
    using True assms(3) by simp
  ultimately show ?thesis using assms True by (simp add: chunk_step_def Let_def)
next
  case False
  then show ?thesis using assms by (simp add: chunk_step_def overlap_of_def Let_def)
qed

theorem chunk_step_overlap_witness:
  "int (length ''aaaa bbbb'') + int (length ''cccccc'') > chunk_size \<lparr>chunk_size = 10, chunk_overlap = 3\<rparr>
   \<and> int (length ''cccccc'') \<le> chunk_size \<lparr>chunk_size = 10, chunk_overlap = 3\<rparr>
   \<and> 0 < chunk_overlap \<lparr>chunk_size = 10, chunk_overlap = 3\<rparr>
   \<and> chunk_step \<lparr>chunk_size = 10, chunk_overlap = 3\<rparr> ([] :: string metadata) ''aaaa bbbb'' ''cccccc''
      = ([\<lparr>content = ''aaaa bbbb'', metadata = []\<rparr>], ''bbb'' @ [CHR 0x0A, CHR 0x0A] @ ''cccccc'')"
  using chunk_step_overlap [where cur = "''aaaa bbbb''" and par = "''cccccc''"
    and c = "\<lparr>chunk_size = 10, chunk_overlap = 3\<rparr>" and md = "[] :: string metadata"]
  by (simp add: flush_def strip_def isspace_def)

section \<open>Crawler: the claims\<close>

text \<open>
  Claim C4: for every site, a crawl adds each normalized URL (fragment and trailing
  slashes stripped) to the visited set at most once (the list of the additions is
  distinct), the visited set never holds more than \<open>max_pages\<close> URLs, and the crawl
  terminates (\<open>crawl\<close> is a total function: its recursion is proved to end with its
  definition). In particular, with \<open>max_pages = 3\<close>, a depth limit of at least 2
  (the default is 5) and a site of 10 reachable in-scope pages, exactly 3 URLs are
  visited.
\<close>

theorem crawl_visits_bounded:
  "distinct (visited (crawl c site))
   \<and> int (length (visited (crawl c site))) \<le> max 0 (max_pages c)
   \<and> (max_pages c = 3 \<and> 2 \<le> max_depth c \<and> card (reachable c site) = 10
        \<longrightarrow> length (visited (crawl c site)) = 3)"
proof -
  let ?init = "\<lparr>visited = [], yielded = []\<rparr>"
  have "distinct (visited (crawl c site))"
    using crawl_visited_distinct(1) [of ?init c site "base_url c" 0] by (simp add: crawl_def)
  moreover have "int (length (visited (crawl c site))) \<le> max 0 (max_pages c)"
    using crawl_visited_bound(1) [of c site "base_url c" 0 ?init] by (simp add: crawl_def)
  moreover have "length (visited (crawl c site)) = 3"
    if "max_pages c = 3" "2 \<le> max_depth c" "card (reachable c site) = 10"
    using crawl_exhausts_budget [of c site] that by simp
  ultimately show ?thesis by blast
qed

theorem crawl_visits_bounded_witness:
  "max_pages example_crawler = 3 \<and> 2 \<le> max_depth example_crawler
   \<and> card (reachable example_crawler example_site) = 10
   \<and> visited (crawl example_crawler example_site) =
       [''https://ex.com/docs'', ''https://ex.com/docs/1'', ''https://ex.com/docs/2'']
   \<and> length (visited (crawl example_crawler example_site)) = 3"
  using crawl_visits_bounded [of example_crawler example_site] example_card example_crawl
  by (simp add: example_crawler_def)


text \<open>
  Claim C5, as stated: \<open>_is_valid_url\<close> accepts a candidate URL exactly when its
  network host equals the base URL's host, its path starts with the base URL's path
  prefix, and it does not end with a blocked asset extension. The code compares the
  whole network location (\<open>netloc\<close>: the host as written, with user info and port)
  and tests the extension on the path: with the base \<open>https://ex.com/docs\<close> the URL
  \<open>https://ex.com:443/docs/a\<close> has the same host, a path under the prefix and no
  blocked extension, and is rejected; and \<open>https://ex.com/docs/a?f=x.pdf\<close> ends
  with a blocked extension and is accepted.
\<close>

theorem is_valid_url_same_host_rejected:
  "new_crawler ''https://ex.com/docs'' 500 5 =
     Some \<lparr>base_url = ''https://ex.com/docs'', max_pages = 500, max_depth = 5,
            base_domain = ''ex.com'', base_path_prefix = ''/docs''\<rparr>
   \<and> urlparse ''https://ex.com:443/docs/a'' =
       Some \<lparr>scheme = ''https'', netloc = ''ex.com:443'', path = ''/docs/a''\<rparr>
   \<and> urlparse ''https://ex.com/docs'' =
       Some \<lparr>scheme = ''https'', netloc = ''ex.com'', path = ''/docs''\<rparr>
   \<and> hostname ''ex.com:443'' = hostname ''ex.com''
   \<and> prefix (path_or_root ''/docs'') (path_or_root ''/docs/a'')
   \<and> \<not> list_ex (\<lambda>ext. suffix ext (lower (path_or_root ''/docs/a''))) skip_extensions
   \<and> \<not> is_valid_url \<lparr>base_url = ''https://ex.com/docs'', max_pages = 500, max_depth = 5,
            base_domain = ''ex.com'', base_path_prefix = ''/docs''\<rparr> ''https://ex.com:443/docs/a''
   \<and> list_ex (\<lambda>ext. suffix ext (lower ''https://ex.com/docs/a?f=x.pdf'')) skip_extensions
   \<and> is_valid_url \<lparr>base_url = ''https://ex.com/docs'', max_pages = 500, max_depth = 5,
            base_domain = ''ex.com'', base_path_prefix = ''/docs''\<rparr> ''https://ex.com/docs/a?f=x.pdf''"
  using example_scope_crawler example_same_host example_query_extension by simp

text \<open>
  Claim C5, amended: for a crawler made from a base URL, \<open>_is_valid_url\<close> accepts a
  candidate URL exactly when it parses, its network location (\<open>netloc\<close>: the host as
  written, with any user info and port) equals that of the base URL (trailing slashes
  stripped), its path (trailing slashes stripped, \<open>/\<close> when nothing is left) starts
  with the base URL's path prefix, and the path, in lower case, does not end with a
  blocked asset extension; an accepted URL has in particular the host of the base URL.
  With the base \<open>https://ex.com/docs\<close>, \<open>https://ex.com/docs/a\<close> is accepted, and
  \<open>https://ex.com/blog\<close>, \<open>https://other.com/docs\<close> and
  \<open>https://ex.com/docs/file.pdf\<close> are rejected.
\<close>

theorem is_valid_url_scope:
  assumes "new_crawler base pages depth = Some c"
  shows "(is_valid_url c url \<longleftrightarrow>
      (\<exists>parsed base_parsed. urlparse url = Some parsed
         \<and> urlparse (rstrip_slash base) = Some base_parsed
         \<and> netloc parsed = netloc base_parsed
         \<and> prefix (path_or_root (path base_parsed)) (path_or_root (path parsed))
         \<and> \<not> list_ex (\<lambda>ext. suffix ext (lower (path_or_root (path parsed)))) skip_extensions))
   \<and> (is_valid_url c url \<longrightarrow>
      (\<exists>parsed base_parsed. urlparse url = Some parsed
         \<and> urlparse (rstrip_slash base) = Some base_parsed
         \<and> hostname (netloc parsed) = hostname (netloc base_parsed)))
   \<and> (\<exists>c0. new_crawler ''https://ex.com/docs'' 500 5 = Some c0
         \<and> is_valid_url c0 ''https://ex.com/docs/a''
         \<and> \<not> is_valid_url c0 ''https://ex.com/blog''
         \<and> \<not> is_valid_url c0 ''https://other.com/docs''
         \<and> \<not> is_valid_url c0 ''https://ex.com/docs/file.pdf'')"
proof -
  from assms obtain bp where bp: "urlparse (rstrip_slash base) = Some bp"
    and c: "base_domain c = netloc bp" "base_path_prefix c = path_or_root (path bp)"
    by (auto simp: new_crawler_def split: option.splits)
  have iff: "is_valid_url c url \<longleftrightarrow>
      (\<exists>parsed base_parsed. urlparse url = Some parsed
         \<and> urlparse (rstrip_slash base) = Some base_parsed
         \<and> netloc parsed = netloc base_parsed
         \<and> prefix (path_or_root (path base_parsed)) (path_or_root (path parsed))
         \<and> \<not> list_ex (\<lambda>ext. suffix ext (lower (path_or_root (path parsed)))) skip_extensions)"
    using bp c by (cases "urlparse url") (auto simp: is_valid_url_def Let_def)
  then have host: "is_valid_url c url \<longrightarrow>
      (\<exists>parsed base_parsed. urlparse url = Some parsed
         \<and> urlparse (rstrip_slash base) = Some base_parsed
         \<and> hostname (netloc parsed) = hostname (netloc base_parsed))"
    by auto
  have "\<exists>c0. new_crawler ''https://ex.com/docs'' 500 5 = Some c0
         \<and> is_valid_url c0 ''https://ex.com/docs/a''
         \<and> \<not> is_valid_url c0 ''https://ex.com/blog''
         \<and> \<not> is_valid_url c0 ''https://other.com/docs''
         \<and> \<not> is_valid_url c0 ''https://ex.com/docs/file.pdf''"
    using example_scope_crawler example_scope_in example_scope_out by blast
  with iff host show ?thesis by blast
qed

theorem is_valid_url_scope_witness:
  "new_crawler ''https://ex.com/docs/'' 500 5 =
     Some \<lparr>base_url = ''https://ex.com/docs'', max_pages = 500, max_depth = 5,
            base_domain = ''ex.com'', base_path_prefix = ''/docs''\<rparr>
   \<and> is_valid_url \<lparr>base_url = ''https://ex.com/docs'', max_pages = 500, max_depth = 5,
            base_domain = ''ex.com'', base_path_prefix = ''/docs''\<rparr> ''https://ex.com/docs/a''
   \<and> (\<exists>parsed base_parsed. urlparse ''https://ex.com/docs/a'' = Some parsed
         \<and> urlparse (rstrip_slash ''https://ex.com/docs/'') = Some base_parsed
         \<and> netloc parsed = netloc base_parsed
         \<and> hostname (netloc parsed) = hostname (netloc base_parsed)
         \<and> prefix (path_or_root (path base_parsed)) (path_or_root (path parsed)))"
proof -
  have n: "new_crawler ''https://ex.com/docs/'' 500 5 =
     Some \<lparr>base_url = ''https://ex.com/docs'', max_pages = 500, max_depth = 5,
            base_domain = ''ex.com'', base_path_prefix = ''/docs''\<rparr>"
    by code_simp
  from is_valid_url_scope [OF n, of "''https://ex.com/docs/a''"] example_scope_in
  have "\<exists>parsed base_parsed. urlparse ''https://ex.com/docs/a'' = Some parsed
         \<and> urlparse (rstrip_slash ''https://ex.com/docs/'') = Some base_parsed
         \<and> netloc parsed = netloc base_parsed
         \<and> prefix (path_or_root (path base_parsed)) (path_or_root (path parsed))
         \<and> \<not> list_ex (\<lambda>ext. suffix ext (lower (path_or_root (path parsed)))) skip_extensions"
    by blast
  then have "\<exists>parsed base_parsed. urlparse ''https://ex.com/docs/a'' = Some parsed
         \<and> urlparse (rstrip_slash ''https://ex.com/docs/'') = Some base_parsed
         \<and> netloc parsed = netloc base_parsed
         \<and> hostname (netloc parsed) = hostname (netloc base_parsed)
         \<and> prefix (path_or_root (path base_parsed)) (path_or_root (path parsed))"
    by auto
  with n example_scope_in show ?thesis by blast
qed


section \<open>Repository fetcher: the claims\<close>

text \<open>
  Claim C6: for every repository tree, \<open>fetch\<close> yields at most \<open>max_files\<close> files in
  total over its three phases (none for a negative \<open>max_files\<close>), and every file it
  yields comes from an entry of the repository whose reported size is at most 500000
  bytes, with that entry's path and decoded content. When \<open>get_repo\<close> raises, nothing
  is yielded.
\<close>

theorem fetch_budget_and_size:
  "int (length (fetch g (Some repo))) \<le> max 0 (max_files g)
   \<and> (\<forall>gf \<in> set (fetch g (Some repo)). \<exists>f \<in> repo_files repo.
         cf_size f \<le> 500000 \<and> gf_path gf = cf_path f \<and> cf_decoded f = Some (gf_content gf))
   \<and> fetch g None = []"
  using fetch_inv_final [of g repo] by (simp add: fetch_def fetch_inv_def Let_def)

theorem fetch_budget_and_size_witness:
  "map gf_path (fetch \<lparr>owner = ''acme'', repo_name = ''op'', max_files = 3\<rparr> (Some example_repo))
     = [''README.md'', ''api/types.go'', ''api/v1/spec.yaml'']
   \<and> int (length (fetch \<lparr>owner = ''acme'', repo_name = ''op'', max_files = 3\<rparr> (Some example_repo))) \<le> 3
   \<and> list_all (\<lambda>gf. \<exists>f \<in> repo_files example_repo.
         cf_size f \<le> 500000 \<and> gf_path gf = cf_path f \<and> cf_decoded f = Some (gf_content gf))
       (fetch \<lparr>owner = ''acme'', repo_name = ''op'', max_files = 3\<rparr> (Some example_repo))"
  using fetch_budget_and_size [of "\<lparr>owner = ''acme'', repo_name = ''op'', max_files = 3\<rparr>" example_repo]
    example_fetch
  by (simp add: list_all_iff)

section \<open>Indexing orchestrator: the claims\<close>

text \<open>
  Claim C2, as stated: every source whose processing a run begins ends the run with
  status Indexed or Failed, also when recording the failure itself raises. When the
  commit that records the failure raises, the handler rolls back and gives up on the
  source, whose stored status stays Indexing: in the example the fetch of source \<open>a\<close>
  raises and so does the commit of its failure; after the run \<open>a\<close> is still Indexing
  (and the notification reports no failure).
\<close>

theorem index_channel_sources_leaves_indexing:
  "settled example_db
   \<and> example_source ''a'' ''https://a.example/docs'' \<in> set (pending_sources example_db ''c1'')
   \<and> map_option status (stored (fst (index_channel_sources failing_world example_db ''c1'')) ''a'')
      = Some INDEXING
   \<and> snd (index_channel_sources failing_world example_db ''c1'') = [Ready ''C123'' 1]"
  by (simp add: settled_def example_db_def example_source_def pending_sources_def
      index_channel_sources_def failing_world_def example_world_def index_source_def try_index_def
      record_failure_def db_commit_def db_rollback_def update_source_def update_rows_def
      fetch_chunks_def embed_and_store_def stored_def count_status_def Let_def)

text \<open>
  Claim C2, amended: for every run over a channel's pending sources (on a database with
  no uncommitted change and unique ids), every source whose processing the run begins
  ends the run with status Indexed or Failed, provided that recording a failure of that
  source (the refresh and the commit of status Failed) does not itself raise.
\<close>

theorem index_channel_sources_terminal_status:
  assumes "settled db" and "s \<in> set (pending_sources db cid)"
    and "refresh_error w (ks_id s) = None" and "commit_error w (ks_id s) FAILED = None"
  shows "\<exists>r. stored (fst (index_channel_sources w db cid)) (ks_id s) = Some r
     \<and> (status r = INDEXED \<or> status r = FAILED)"
proof -
  have a: "session db = committed db" using assms(1) by (simp add: settled_def)
  have b: "stored db (ks_id s) \<noteq> None" using pending_stored(1) [OF assms(1,2)] by simp
  from index_sources_status [OF a pending_stored(2) [OF assms(1,2)] assms(2) b assms(3,4)]
  show ?thesis by (simp add: index_channel_sources_def Let_def)
qed


theorem index_channel_sources_terminal_status_witness:
  "settled example_db
   \<and> example_source ''a'' ''https://a.example/docs'' \<in> set (pending_sources example_db ''c1'')
   \<and> refresh_error example_world ''a'' = None \<and> commit_error example_world ''a'' FAILED = None
   \<and> (\<exists>r. stored (fst (index_channel_sources example_world example_db ''c1'')) ''a'' = Some r
         \<and> (status r = INDEXED \<or> status r = FAILED))"
proof -
  have h: "settled example_db"
    "example_source ''a'' ''https://a.example/docs'' \<in> set (pending_sources example_db ''c1'')"
    "refresh_error example_world (ks_id (example_source ''a'' ''https://a.example/docs'')) = None"
    "commit_error example_world (ks_id (example_source ''a'' ''https://a.example/docs'')) FAILED = None"
    by (simp_all add: settled_def example_db_def example_source_def pending_sources_def
        example_world_def)
  from index_channel_sources_terminal_status [OF h] h show ?thesis
    by (simp add: example_source_def)
qed




section \<open>Query pipeline: the claims\<close>

text \<open>
  Claim C9: for every question, when the channel's collection holds no document,
  \<open>answer_question\<close> returns the fixed "not yet indexed" answer with confidence low and
  no sources; the only external operations it invokes are loading the embedding model
  and counting the collection, so neither the query embedding nor the answer generation
  is invoked.
\<close>

theorem answer_question_empty_index:
  assumes "collection_count b = 0"
  shows "fst (answer_question b question) = Inr not_indexed_answer
     \<and> confidence not_indexed_answer = ''low'' \<and> sources not_indexed_answer = []
     \<and> snd (answer_question b question) = [LoadModel, Count]
     \<and> (\<nexists>q. EmbedQuery q \<in> set (snd (answer_question b question)))
     \<and> (\<nexists>q c. Generate q c \<in> set (snd (answer_question b question)))"
  using assms by (simp add: answer_question_def not_indexed_answer_def)

theorem answer_question_empty_index_witness:
  "collection_count \<lparr>collection_count = 0, collection_query = (\<lambda>e n. Inl ''no index''),
       encode_query = (\<lambda>q. Inr [1, 0]), messages_create = (\<lambda>q c. Inr ''ok'')\<rparr> = 0
   \<and> answer_question \<lparr>collection_count = 0, collection_query = (\<lambda>e n. Inl ''no index''),
       encode_query = (\<lambda>q. Inr [1, 0]), messages_create = (\<lambda>q c. Inr ''ok'')\<rparr> ''how do I deploy?''
     = (Inr not_indexed_answer, [LoadModel, Count])"
  using answer_question_empty_index [of "\<lparr>collection_count = 0,
       collection_query = (\<lambda>e n. Inl ''no index''),
       encode_query = (\<lambda>q. Inr [1, 0]), messages_create = (\<lambda>q c. Inr ''ok'')\<rparr>" "''how do I deploy?''"]
  by (simp add: prod_eq_iff)

text \<open>
  Claim C10: for every question against a collection that is not empty, when the query
  of the similarity index raises, \<open>VectorStore.query\<close> returns the empty list and
  \<open>answer_question\<close> returns the fixed "couldn't find relevant information" answer with
  confidence low and no sources; no exception reaches the caller and the answer
  generation is not invoked.
\<close>

theorem answer_question_index_query_raises:
  assumes "collection_count b \<noteq> 0"
    and "encode_query b question = Inr query_embedding"
    and "collection_query b query_embedding 5 = Inl err"
  shows "vector_store_query b query_embedding 5 = []
     \<and> fst (answer_question b question) = Inr nothing_found_answer
     \<and> confidence nothing_found_answer = ''low'' \<and> sources nothing_found_answer = []
     \<and> (\<nexists>q c. Generate q c \<in> set (snd (answer_question b question)))"
  using assms by (simp add: answer_question_def vector_store_query_def nothing_found_answer_def)

theorem answer_question_index_query_raises_witness:
  "collection_count \<lparr>collection_count = 7, collection_query = (\<lambda>e n. Inl ''index unavailable''),
       encode_query = (\<lambda>q. Inr [1, 0]), messages_create = (\<lambda>q c. Inr ''ok'')\<rparr> \<noteq> 0
   \<and> encode_query \<lparr>collection_count = 7, collection_query = (\<lambda>e n. Inl ''index unavailable''),
       encode_query = (\<lambda>q. Inr [1, 0]), messages_create = (\<lambda>q c. Inr ''ok'')\<rparr> ''how do I deploy?''
     = Inr [1, 0]
   \<and> collection_query \<lparr>collection_count = 7, collection_query = (\<lambda>e n. Inl ''index unavailable''),
       encode_query = (\<lambda>q. Inr [1, 0]), messages_create = (\<lambda>q c. Inr ''ok'')\<rparr> [1, 0] 5
     = Inl ''index unavailable''
   \<and> fst (answer_question \<lparr>collection_count = 7, collection_query = (\<lambda>e n. Inl ''index unavailable''),
       encode_query = (\<lambda>q. Inr [1, 0]), messages_create = (\<lambda>q c. Inr ''ok'')\<rparr> ''how do I deploy?'')
     = Inr nothing_found_answer"
  using answer_question_index_query_raises [of "\<lparr>collection_count = 7,
       collection_query = (\<lambda>e n. Inl ''index unavailable''),
       encode_query = (\<lambda>q. Inr [1, 0]), messages_create = (\<lambda>q c. Inr ''ok'')\<rparr>"
       "''how do I deploy?''" "[1, 0]" "''index unavailable''"]
  by simp


end
